theory Spec2Isabelle
  imports Main "HOL-Library.AList"
begin

section \<open>Strings of the program\<close>

text \<open>
  A JavaScript string is a sequence of code units. The model uses Isabelle's
  \<^typ>\<open>string\<close>, whose characters are the code units U+0000 to U+00FF; the
  character classes below are the ECMAScript ones restricted to that range.
\<close>

definition isWhiteSpace :: "char \<Rightarrow> bool" where
  \<comment> \<open>\<open>\s\<close> and the characters \<open>trim\<close> removes: TAB, LF, VT, FF, CR, SP, NBSP.\<close>
  "isWhiteSpace c = ((of_char c :: nat) \<in> {9, 10, 11, 12, 13, 32, 160})"

definition isDigit :: "char \<Rightarrow> bool" where
  \<comment> \<open>\<open>\d\<close>, that is \<open>[0-9]\<close>.\<close>
  "isDigit c = (48 \<le> (of_char c :: nat) \<and> (of_char c :: nat) \<le> 57)"

definition isUpper :: "char \<Rightarrow> bool" where
  "isUpper c = (65 \<le> (of_char c :: nat) \<and> (of_char c :: nat) \<le> 90)"

definition isLower :: "char \<Rightarrow> bool" where
  "isLower c = (97 \<le> (of_char c :: nat) \<and> (of_char c :: nat) \<le> 122)"

definition trim :: "string \<Rightarrow> string" where
  \<comment> \<open>\<open>String.prototype.trim\<close>\<close>
  "trim s = rev (dropWhile isWhiteSpace (rev (dropWhile isWhiteSpace s)))"

definition toLowerChar :: "char \<Rightarrow> char" where
  \<comment> \<open>lower-case mapping of one code unit: A-Z, and the Latin-1 capitals
      U+00C0 to U+00DE without the multiplication sign U+00D7\<close>
  "toLowerChar c =
     (let n = (of_char c :: nat)
      in if isUpper c \<or> (192 \<le> n \<and> n \<le> 222 \<and> n \<noteq> 215) then char_of (n + 32) else c)"

definition toLowerCase :: "string \<Rightarrow> string" where
  \<comment> \<open>\<open>String.prototype.toLowerCase\<close>\<close>
  "toLowerCase s = map toLowerChar s"

function showNat :: "nat \<Rightarrow> string" where
  \<comment> \<open>the decimal numeral of a number, as string concatenation \<open>'' + n\<close> produces it\<close>
  "showNat n = (if n < 10 then [char_of (48 + n)] else showNat (n div 10) @ [char_of (48 + n mod 10)])"
  by pat_completeness auto
termination
  by (relation "measure id") auto

declare showNat.simps [simp del]

section \<open>Cache keys (services/geminiService)\<close>

datatype cache_type = Era | Search | Image

fun type_tag :: "cache_type \<Rightarrow> string" where
  "type_tag Era = ''era''"
| "type_tag Search = ''search''"
| "type_tag Image = ''image''"

definition CACHE_PREFIX :: string where
  "CACHE_PREFIX = ''chronos_cache_v1_''"

definition isKeyChar :: "char \<Rightarrow> bool" where
  \<comment> \<open>the complement of the class \<open>[^a-zA-Z0-9-_]\<close>\<close>
  "isKeyChar c = (isLower c \<or> isUpper c \<or> isDigit c \<or> c = CHR ''-'' \<or> c = CHR ''_'')"

definition sanitize :: "string \<Rightarrow> string" where
  \<comment> \<open>\<open>id.replace(/[^a-zA-Z0-9-_]/g, '')\<close>\<close>
  "sanitize s = filter isKeyChar s"

definition getCacheKey :: "cache_type \<Rightarrow> string \<Rightarrow> string" where
  "getCacheKey t ident = CACHE_PREFIX @ type_tag t @ ''_'' @ sanitize ident"

datatype EraId = INTRO | PROTO | OLD_ENGLISH | MIDDLE_ENGLISH | EARLY_MODERN
  | RESTORATION | LATE_MODERN | GLOBAL

fun eraIdString :: "EraId \<Rightarrow> string" where
  "eraIdString INTRO = ''intro''"
| "eraIdString PROTO = ''proto''"
| "eraIdString OLD_ENGLISH = ''old_english''"
| "eraIdString MIDDLE_ENGLISH = ''middle_english''"
| "eraIdString EARLY_MODERN = ''early_modern''"
| "eraIdString RESTORATION = ''restoration''"
| "eraIdString LATE_MODERN = ''late_modern''"
| "eraIdString GLOBAL = ''global''"

definition eraCacheKey :: "EraId \<Rightarrow> string" where
  \<comment> \<open>\<open>getCacheKey('era', era.id)\<close> in \<open>generateHistoryArticle\<close>\<close>
  "eraCacheKey e = getCacheKey Era (eraIdString e)"

definition searchCacheKey :: "string \<Rightarrow> string" where
  \<comment> \<open>\<open>getCacheKey('search', query.trim().toLowerCase())\<close> in \<open>generateSearchArticle\<close>\<close>
  "searchCacheKey query = getCacheKey Search (toLowerCase (trim query))"

function replaceWhiteSpaceRuns :: "string \<Rightarrow> string" where
  \<comment> \<open>\<open>.replace(/\s+/g, '_')\<close>: every maximal run of white space becomes one underscore\<close>
  "replaceWhiteSpaceRuns [] = []"
| "replaceWhiteSpaceRuns (c # cs) =
     (if isWhiteSpace c then CHR ''_'' # replaceWhiteSpaceRuns (dropWhile isWhiteSpace cs)
      else c # replaceWhiteSpaceRuns cs)"
  by pat_completeness auto
termination
  by (relation "measure length") (auto simp: length_dropWhile_le less_Suc_eq_le)

definition promptKey :: "string \<Rightarrow> string" where
  \<comment> \<open>\<open>prompt.substring(0, 50).replace(/\s+/g, '_') + '_' + prompt.length\<close>\<close>
  "promptKey prompt = replaceWhiteSpaceRuns (take 50 prompt) @ ''_'' @ showNat (length prompt)"

definition imageCacheKey :: "string \<Rightarrow> string" where
  \<comment> \<open>\<open>getCacheKey('image', promptKey)\<close> in \<open>generateHistoricalIllustration\<close>\<close>
  "imageCacheKey prompt = getCacheKey Image (promptKey prompt)"

text \<open>
  Two characters that differ at most in letter case (the reading of "differ only in
  letter case" used below; it is stated without reference to \<open>toLowerCase\<close>).
\<close>

definition caseVariant :: "char \<Rightarrow> char \<Rightarrow> bool" where
  "caseVariant c d = (c = d \<or> (isUpper c \<and> (of_char d :: nat) = of_char c + 32)
      \<or> (isUpper d \<and> (of_char c :: nat) = of_char d + 32))"

section \<open>Regular expressions as backtracking matchers\<close>

text \<open>
  The two regular expressions of \<open>renderRichText\<close> are written with combinators that
  follow the ECMAScript matching algorithm: a matcher maps a position to the list of
  positions at which a match of the pattern can end, in the order in which the
  backtracking engine tries them; the match the engine reports is the head of that
  list. A position is the code unit before it (\<open>None\<close> at the start of the input),
  which the assertion \<open>\b\<close> inspects, and the rest of the input.
\<close>

type_synonym pos = "char option \<times> string"
type_synonym matcher = "pos \<Rightarrow> pos list"

definition isWordChar :: "char \<Rightarrow> bool" where
  \<comment> \<open>\<open>\w\<close>, that is \<open>[A-Za-z0-9_]\<close>\<close>
  "isWordChar c = (isLower c \<or> isUpper c \<or> isDigit c \<or> c = CHR ''_'')"

definition isLineTerminator :: "char \<Rightarrow> bool" where
  \<comment> \<open>the code units that \<open>.\<close> does not match: LF and CR\<close>
  "isLineTerminator c = ((of_char c :: nat) \<in> {10, 13})"

definition chr :: "(char \<Rightarrow> bool) \<Rightarrow> matcher" where
  \<comment> \<open>one code unit of a character class\<close>
  "chr P p = (case snd p of [] \<Rightarrow> [] | c # cs \<Rightarrow> if P c then [(Some c, cs)] else [])"

definition lit :: "char \<Rightarrow> matcher" where
  "lit c = chr (\<lambda>x. x = c)"

definition seq :: "matcher \<Rightarrow> matcher \<Rightarrow> matcher" where
  \<comment> \<open>concatenation: every end of the first pattern is a start of the second\<close>
  "seq m1 m2 p = concat (map m2 (m1 p))"

fun seqs :: "matcher list \<Rightarrow> matcher" where
  "seqs [] p = [p]"
| "seqs (m # ms) p = seq m (seqs ms) p"

fun alts :: "matcher list \<Rightarrow> matcher" where
  \<comment> \<open>\<open>a|b|c\<close>: the alternatives in order\<close>
  "alts [] p = []"
| "alts (m # ms) p = m p @ alts ms p"

fun str :: "string \<Rightarrow> matcher" where
  \<comment> \<open>a literal string\<close>
  "str [] p = [p]"
| "str (c # cs) p = seq (lit c) (str cs) p"

definition opt :: "matcher \<Rightarrow> matcher" where
  \<comment> \<open>greedy \<open>?\<close>: with the pattern first, then without\<close>
  "opt m p = m p @ [p]"

fun star :: "(char \<Rightarrow> bool) \<Rightarrow> matcher" where
  \<comment> \<open>greedy \<open>*\<close> of a character class: the longest run first\<close>
  "star P (prev, []) = [(prev, [])]"
| "star P (prev, c # cs) = (if P c then star P (Some c, cs) else []) @ [(prev, c # cs)]"

definition plus :: "(char \<Rightarrow> bool) \<Rightarrow> matcher" where
  \<comment> \<open>greedy \<open>+\<close> of a character class\<close>
  "plus P = seq (chr P) (star P)"

fun lazyStar :: "(char \<Rightarrow> bool) \<Rightarrow> matcher" where
  \<comment> \<open>lazy \<open>*?\<close> of a character class: the shortest run first\<close>
  "lazyStar P (prev, []) = [(prev, [])]"
| "lazyStar P (prev, c # cs) = (prev, c # cs) # (if P c then lazyStar P (Some c, cs) else [])"

definition wordBoundary :: matcher where
  \<comment> \<open>\<open>\b\<close>: exactly one of the code units around the position is a word character\<close>
  "wordBoundary p =
     (let a = (case fst p of None \<Rightarrow> False | Some c \<Rightarrow> isWordChar c);
          b = (case snd p of [] \<Rightarrow> False | c # cs \<Rightarrow> isWordChar c)
      in if a \<noteq> b then [p] else [])"

definition regexExec :: "matcher \<Rightarrow> char option \<Rightarrow> string \<Rightarrow> nat option" where
  \<comment> \<open>a sticky match at the position: the length of the match, \<open>None\<close> for no match\<close>
  "regexExec m prev s =
     (case m (prev, s) of [] \<Rightarrow> None | p # ps \<Rightarrow> Some (length s - length (snd p)))"

text \<open>
  \<open>String.prototype.split\<close> with a regular expression whose one capture group is the
  whole pattern (\<open>RegExp.prototype[@@split]\<close>): \<open>acc\<close> holds, reversed, the input
  from the end \<open>p\<close> of the last match to the current position \<open>q\<close>. A match that is
  empty and ends at \<open>p\<close> is skipped; any other match closes the piece before it and is
  itself the next element.
\<close>

function splitRe :: "matcher \<Rightarrow> char option \<Rightarrow> string \<Rightarrow> string \<Rightarrow> string list" where
  "splitRe m prev acc [] = [rev acc]"
| "splitRe m prev acc (c # cs) =
     (case regexExec m prev (c # cs) of
        None \<Rightarrow> splitRe m (Some c) (c # acc) cs
      | Some n \<Rightarrow>
          if n = 0 \<and> acc = [] then splitRe m (Some c) (c # acc) cs
          else rev acc # take n (c # cs) #
               splitRe m (if n = 0 then prev else Some ((c # cs) ! (n - 1))) [] (drop n (c # cs)))"
  by pat_completeness auto
termination
  by (relation "measures [\<lambda>(m, prev, acc, s). length s, \<lambda>(m, prev, acc, s). if acc = [] then 0 else 1]")
     auto

definition split :: "matcher \<Rightarrow> string \<Rightarrow> string list" where
  "split m s =
     (if s = [] then (if regexExec m None [] = None then [[]] else [])
      else splitRe m None [] s)"

section \<open>The annotation scan (components/ArticleRenderer, renderRichText)\<close>

definition glossaryRegex :: matcher where
  \<comment> \<open>\<open>/(\[\[.*?\]\])/g\<close>\<close>
  "glossaryRegex = seqs [str ''[['', lazyStar (\<lambda>c. \<not> isLineTerminator c), str '']]'']"

definition digit :: matcher where
  "digit = chr isDigit"

definition charRange :: "char \<Rightarrow> char \<Rightarrow> matcher" where
  \<comment> \<open>the class \<open>[a-b]\<close>\<close>
  "charRange a b = chr (\<lambda>c. (of_char a :: nat) \<le> of_char c \<and> (of_char c :: nat) \<le> of_char b)"

definition yearPattern :: matcher where
  \<comment> \<open>\<open>(?:4[0-9]{2}|[5-9][0-9]{2}|1[0-9]{3}|20[0-2][0-9])\<close>\<close>
  "yearPattern = alts
     [seqs [lit CHR ''4'', digit, digit],
      seqs [charRange CHR ''5'' CHR ''9'', digit, digit],
      seqs [lit CHR ''1'', digit, digit, digit],
      seqs [str ''20'', charRange CHR ''0'' CHR ''2'', digit]]"

definition adPattern :: matcher where
  \<comment> \<open>\<open>(?:AD\s*)?\<close>\<close>
  "adPattern = opt (seqs [str ''AD'', star isWhiteSpace])"

definition suffixPattern :: matcher where
  \<comment> \<open>\<open>(?:s|\s*BC|\s*AD)?\<close>\<close>
  "suffixPattern = opt (alts [lit CHR ''s'',
                             seqs [star isWhiteSpace, str ''BC''],
                             seqs [star isWhiteSpace, str ''AD'']])"

definition yearDate :: matcher where
  \<comment> \<open>\<open>\b(?:AD\s*)?(?:4[0-9]{2}|[5-9][0-9]{2}|1[0-9]{3}|20[0-2][0-9])(?:s|\s*BC|\s*AD)?\b\<close>\<close>
  "yearDate = seqs [wordBoundary, adPattern, yearPattern, suffixPattern, wordBoundary]"

definition centuryDate :: matcher where
  \<comment> \<open>\<open>\b\d{1,2}(?:st|nd|rd|th)\s+[Cc]entury\b\<close>\<close>
  "centuryDate = seqs [wordBoundary,
                       digit, opt digit,
                       alts [str ''st'', str ''nd'', str ''rd'', str ''th''],
                       plus isWhiteSpace,
                       chr (\<lambda>c. c = CHR ''C'' \<or> c = CHR ''c''),
                       str ''entury'',
                       wordBoundary]"

definition dateRegex :: matcher where
  \<comment> \<open>\<open>/(\b(?:AD\s*)?(?:4[0-9]{2}|[5-9][0-9]{2}|1[0-9]{3}|20[0-2][0-9])(?:s|\s*BC|\s*AD)?\b|\b\d{1,2}(?:st|nd|rd|th)\s+[Cc]entury\b)/g\<close>\<close>
  "dateRegex = alts [yearDate, centuryDate]"

record GlossaryItem =
  entry_term :: string
  entry_definition :: string

text \<open>
  The elements \<open>renderRichText\<close> returns: a \<open>span\<close> of plain text, the \<open>button\<close> of a
  glossary term (its label and the glossary item its click shows), and the highlighted
  \<open>span\<close> of a date.
\<close>

datatype span = PlainText string | GlossaryRef string GlossaryItem | DateMarker string

definition startsWith :: "string \<Rightarrow> string \<Rightarrow> bool" where
  "startsWith s p = (take (length p) s = p)"

definition endsWith :: "string \<Rightarrow> string \<Rightarrow> bool" where
  "endsWith s p = (drop (length s - length p) s = p)"

definition slice :: "string \<Rightarrow> int \<Rightarrow> int \<Rightarrow> string" where
  \<comment> \<open>\<open>String.prototype.slice(start, end)\<close>: a negative index counts from the end\<close>
  "slice s start end =
     (let len = int (length s);
          from = (if start < 0 then max (len + start) 0 else min start len);
          to = (if end < 0 then max (len + end) 0 else min end len)
      in take (nat (to - from)) (drop (nat from) s))"

definition lookupGlossary :: "GlossaryItem list option \<Rightarrow> string \<Rightarrow> GlossaryItem" where
  \<comment> \<open>\<open>content.glossary?.find(g => g.term.toLowerCase() === termText.toLowerCase())
      || { term: termText, definition: "Definition unavailable." }\<close>\<close>
  "lookupGlossary glossary termText =
     (case (case glossary of None \<Rightarrow> None
            | Some g \<Rightarrow> find (\<lambda>g. toLowerCase (entry_term g) = toLowerCase termText) g) of
        Some item \<Rightarrow> item
      | None \<Rightarrow> \<lparr>entry_term = termText, entry_definition = ''Definition unavailable.''\<rparr>)"

fun markSubParts :: "nat \<Rightarrow> string list \<Rightarrow> span list" where
  \<comment> \<open>\<open>subParts.map((subPart, subIndex) => ...)\<close>, from index \<open>i\<close> on: the odd indices are
      the matches of the date pattern\<close>
  "markSubParts i [] = []"
| "markSubParts i (subPart # rest) =
     (if i mod 2 = 1 then DateMarker subPart else PlainText subPart) # markSubParts (Suc i) rest"

definition renderPart :: "GlossaryItem list option \<Rightarrow> string \<Rightarrow> span list" where
  "renderPart glossary part =
     (if startsWith part ''[['' \<and> endsWith part '']]'' then
        (let termText = slice part 2 (- 2)
         in [GlossaryRef termText (lookupGlossary glossary termText)])
      else markSubParts 0 (split dateRegex part))"

definition renderRichText :: "GlossaryItem list option \<Rightarrow> string \<Rightarrow> span list" where
  \<comment> \<open>the elements in document order (React flattens the nested arrays)\<close>
  "renderRichText glossary text = concat (map (renderPart glossary) (split glossaryRegex text))"

section \<open>Vocabulary for the statements about the scan\<close>

fun spanText :: "span \<Rightarrow> string" where
  \<comment> \<open>the literal text of a span: the bracket contents of a glossary reference, the
      matched substring of a date marker, the text of a plain span\<close>
  "spanText (PlainText s) = s"
| "spanText (GlossaryRef termText item) = termText"
| "spanText (DateMarker s) = s"

fun isGlossaryRef :: "span \<Rightarrow> bool" where
  "isGlossaryRef (GlossaryRef termText item) = True"
| "isGlossaryRef other = False"

fun contains :: "string \<Rightarrow> string \<Rightarrow> bool" where
  \<comment> \<open>\<open>contains s sub\<close>: \<open>sub\<close> occurs in \<open>s\<close>\<close>
  "contains [] sub = (sub = [])"
| "contains (c # cs) sub = (startsWith (c # cs) sub \<or> contains cs sub)"

text \<open>
  A text with \<open>N\<close> glossary regions is \<open>p\<^sub>1 [[t\<^sub>1]] p\<^sub>2 [[t\<^sub>2]] ... p\<^sub>N [[t\<^sub>N]] last\<close>: the
  list of the pairs \<open>(p\<^sub>i, t\<^sub>i)\<close> and the text after the last region. The regions are the
  delimited ones when no plain piece opens a region of its own (no \<open>[[\<close> in it, also
  not together with the delimiter that follows it) and no term closes early (no \<open>]]\<close>
  in it, also not together with the delimiter that follows it).
\<close>

fun assemble :: "(string \<times> string) list \<Rightarrow> string \<Rightarrow> string" where
  "assemble [] final = final"
| "assemble ((p, t) # segs) final = p @ ''[['' @ t @ '']]'' @ assemble segs final"

fun partsOf :: "(string \<times> string) list \<Rightarrow> string \<Rightarrow> string list" where
  \<comment> \<open>the pieces of that text: the plain pieces and the delimited regions in turn\<close>
  "partsOf [] final = [final]"
| "partsOf ((p, t) # segs) final = p # (''[['' @ t @ '']]'') # partsOf segs final"

fun stripped :: "(string \<times> string) list \<Rightarrow> string \<Rightarrow> string" where
  \<comment> \<open>the same text without the delimiters\<close>
  "stripped [] final = final"
| "stripped ((p, t) # segs) final = p @ t @ stripped segs final"

definition plainPiece :: "string \<Rightarrow> bool" where
  "plainPiece p = (\<not> contains (p @ ''['') ''[['')"

definition termPiece :: "string \<Rightarrow> bool" where
  "termPiece t = (\<not> contains (t @ '']'') '']]'')"

definition singleLine :: "string \<Rightarrow> bool" where
  "singleLine t = list_all (\<lambda>c. \<not> isLineTerminator c) t"

definition regions :: "(string \<times> string) list \<Rightarrow> string \<Rightarrow> bool" where
  "regions segs final =
     (list_all (\<lambda>(p, t). plainPiece p \<and> termPiece t) segs \<and> \<not> contains final ''[['')"

definition placeholderItem :: "string \<Rightarrow> GlossaryItem" where
  "placeholderItem termText = \<lparr>entry_term = termText, entry_definition = ''Definition unavailable.''\<rparr>"

section \<open>Vocabulary for the statements about dates\<close>

definition lastOpt :: "char option \<Rightarrow> string \<Rightarrow> char option" where
  \<comment> \<open>the code unit before a position, after \<open>w\<close> has been read from a position with
      \<open>prev\<close> before it\<close>
  "lastOpt prev w = (if w = [] then prev else Some (last w))"

definition digitValue :: "char \<Rightarrow> nat" where
  "digitValue c = of_char c - 48"


definition yearShape :: "string \<Rightarrow> bool" where
  \<comment> \<open>the strings of the four alternatives of the year pattern\<close>
  "yearShape Y =
     (case Y of
        [a, b, c] \<Rightarrow> 52 \<le> (of_char a :: nat) \<and> (of_char a :: nat) \<le> 57 \<and> isDigit b \<and> isDigit c
      | [a, b, c, d] \<Rightarrow>
          (a = CHR ''1'' \<and> isDigit b \<and> isDigit c \<and> isDigit d)
          \<or> (a = CHR ''2'' \<and> b = CHR ''0''
               \<and> 48 \<le> (of_char c :: nat) \<and> (of_char c :: nat) \<le> 50 \<and> isDigit d)
      | _ \<Rightarrow> False)"

definition adPrefix :: "string \<Rightarrow> bool" where
  \<comment> \<open>nothing, or \<open>AD\<close> and white space: what \<open>(?:AD\s*)?\<close> reads\<close>
  "adPrefix x = (x = [] \<or> (take 2 x = ''AD'' \<and> list_all isWhiteSpace (drop 2 x)))"

definition dateSuffix :: "string \<Rightarrow> bool" where
  \<comment> \<open>nothing, \<open>s\<close>, or white space and \<open>BC\<close> or \<open>AD\<close>: what \<open>(?:s|\s*BC|\s*AD)?\<close> reads\<close>
  "dateSuffix y =
     (y = [] \<or> y = ''s'' \<or> dropWhile isWhiteSpace y = ''BC'' \<or> dropWhile isWhiteSpace y = ''AD'')"

definition wordBefore :: "char option \<Rightarrow> bool" where
  "wordBefore prev = (case prev of None \<Rightarrow> False | Some c \<Rightarrow> isWordChar c)"

definition wordAfter :: "string \<Rightarrow> bool" where
  "wordAfter s = (case s of [] \<Rightarrow> False | c # cs \<Rightarrow> isWordChar c)"

definition noDigits :: "string \<Rightarrow> bool" where
  "noDigits w = list_all (\<lambda>c. \<not> isDigit c) w"




definition plainPart :: "string \<Rightarrow> bool" where
  \<comment> \<open>a piece of the text that \<open>renderRichText\<close> does not take for a glossary region\<close>
  "plainPart part = (\<not> (startsWith part ''[['' \<and> endsWith part '']]''))"

section \<open>The platform: JSON values, JSON text, localStorage\<close>

text \<open>
  The values \<open>JSON.parse\<close> can produce. \<open>JNull\<close> is also the \<open>null\<close> that \<open>getFromCache\<close>
  returns for a miss: JavaScript does not tell the two apart. Numbers are modelled by
  integers; their only use here is the truth value of a number.
\<close>

datatype json = JNull | JBool bool | JNum int | JStr string | JArr "json list"
  | JObj "(string \<times> json) list"

fun truthy :: "json \<Rightarrow> bool" where
  \<comment> \<open>\<open>ToBoolean\<close>, which \<open>if (cached)\<close> applies\<close>
  "truthy JNull = False"
| "truthy (JBool b) = b"
| "truthy (JNum n) = (n \<noteq> 0)"
| "truthy (JStr s) = (s \<noteq> [])"
| "truthy (JArr xs) = True"
| "truthy (JObj kvs) = True"

text \<open>
  \<open>JSON.parse\<close> and \<open>JSON.stringify\<close> belong to the platform, not to the repository:
  they are parameters of the model. \<open>parse\<close> gives \<open>None\<close> where \<open>JSON.parse\<close> throws a
  \<open>SyntaxError\<close>.
\<close>

record json_api =
  parse :: "string \<Rightarrow> json option"
  stringify :: "json \<Rightarrow> string"

text \<open>
  \<open>localStorage\<close>: the stored items and the quota of the origin, counted in code
  units of keys and values. \<open>setItem\<close> gives \<open>None\<close> where the platform throws a
  \<open>QuotaExceededError\<close>.
\<close>

record storage =
  items :: "(string \<times> string) list"
  quota :: nat

definition usage :: "(string \<times> string) list \<Rightarrow> nat" where
  "usage xs = sum_list (map (\<lambda>(k, v). length k + length v) xs)"

definition getItem :: "storage \<Rightarrow> string \<Rightarrow> string option" where
  "getItem st key = map_of (items st) key"

definition setItem :: "storage \<Rightarrow> string \<Rightarrow> string \<Rightarrow> storage option" where
  "setItem st key val =
     (let items' = AList.update key val (items st)
      in if usage items' \<le> quota st then Some (st\<lparr>items := items'\<rparr>) else None)"

section \<open>The cache and the fetch operations (services/geminiService)\<close>

definition saveToCache :: "json_api \<Rightarrow> storage \<Rightarrow> string \<Rightarrow> json \<Rightarrow> storage" where
  \<comment> \<open>\<open>try { localStorage.setItem(key, JSON.stringify(data)) } catch (e) { console.warn(...) }\<close>\<close>
  "saveToCache J st key data =
     (case setItem st key (stringify J data) of Some st' \<Rightarrow> st' | None \<Rightarrow> st)"

definition getFromCache :: "json_api \<Rightarrow> storage \<Rightarrow> string \<Rightarrow> json" where
  \<comment> \<open>\<open>try { const item = localStorage.getItem(key); return item ? JSON.parse(item) : null }
      catch (e) { return null }\<close>\<close>
  "getFromCache J st key =
     (case getItem st key of
        None \<Rightarrow> JNull
      | Some item \<Rightarrow>
          if item = [] then JNull
          else (case parse J item of None \<Rightarrow> JNull | Some v \<Rightarrow> v))"

datatype error =
    ApiKeyMissing           \<comment> \<open>\<open>new Error("API Key is missing")\<close>\<close>
  | NoContentGenerated      \<comment> \<open>\<open>new Error("No content generated")\<close>\<close>
  | NoImageGenerated        \<comment> \<open>\<open>new Error("No image generated")\<close>\<close>
  | SyntaxError             \<comment> \<open>thrown by \<open>JSON.parse\<close>\<close>
  | ServiceError string     \<comment> \<open>the rejection of \<open>generateContent\<close>\<close>

record env =
  API_KEY :: "string option"   \<comment> \<open>\<open>process.env.API_KEY\<close>\<close>

definition getClient :: "env \<Rightarrow> error + unit" where
  \<comment> \<open>\<open>if (!apiKey) throw new Error("API Key is missing")\<close>: an absent or empty key\<close>
  "getClient e = (case API_KEY e of None \<Rightarrow> Inl ApiKeyMissing
                  | Some k \<Rightarrow> if k = [] then Inl ApiKeyMissing else Inr ())"

record TimelineItem =
  era_id :: EraId
  title :: string
  yearRange :: string
  description :: string

text \<open>
  The answer of \<open>ai.models.generateContent\<close>. For a lesson the code reads
  \<open>response.text\<close>, which may be undefined; for an illustration it reads the parts of
  the first candidate, each with or without \<open>inlineData\<close> (its \<open>data\<close>). The request
  (model, prompt, schema) is a function of the argument of the fetch operation, so the
  service is a function from that argument to a rejection or an answer.
\<close>

record text_response =
  response_text :: "string option"

record image_response =
  response_parts :: "string option list"

definition liveHistoryArticle ::
  "json_api \<Rightarrow> env \<Rightarrow> (TimelineItem \<Rightarrow> error + text_response) \<Rightarrow> storage \<Rightarrow> TimelineItem
     \<Rightarrow> (error + json) \<times> storage" where
  \<comment> \<open>the \<open>try\<close> block of \<open>generateHistoryArticle\<close>\<close>
  "liveHistoryArticle J e generateContent st era =
     (let cacheKey = getCacheKey Era (eraIdString (era_id era))
      in case getClient e of
           Inl err \<Rightarrow> (Inl err, st)
         | Inr ai \<Rightarrow>
             (case generateContent era of
                Inl err \<Rightarrow> (Inl err, st)
              | Inr response \<Rightarrow>
                  (case response_text response of
                     None \<Rightarrow> (Inl NoContentGenerated, st)
                   | Some t \<Rightarrow>
                       if t = [] then (Inl NoContentGenerated, st)
                       else (case parse J t of
                               None \<Rightarrow> (Inl SyntaxError, st)
                             | Some content \<Rightarrow> (Inr content, saveToCache J st cacheKey content)))))"

definition generateHistoryArticle ::
  "json_api \<Rightarrow> env \<Rightarrow> (TimelineItem \<Rightarrow> error + text_response) \<Rightarrow> storage \<Rightarrow> TimelineItem
     \<Rightarrow> (error + json) \<times> storage" where
  "generateHistoryArticle J e generateContent st era =
     (let cacheKey = getCacheKey Era (eraIdString (era_id era))
      in case liveHistoryArticle J e generateContent st era of
           (Inr content, st') \<Rightarrow> (Inr content, st')
         | (Inl err, st') \<Rightarrow>
             (let cached = getFromCache J st' cacheKey
              in if truthy cached then (Inr cached, st') else (Inl err, st')))"

definition liveSearchArticle ::
  "json_api \<Rightarrow> env \<Rightarrow> (string \<Rightarrow> error + text_response) \<Rightarrow> storage \<Rightarrow> string
     \<Rightarrow> (error + json) \<times> storage" where
  \<comment> \<open>the \<open>try\<close> block of \<open>generateSearchArticle\<close>\<close>
  "liveSearchArticle J e generateContent st query =
     (let cacheKey = getCacheKey Search (toLowerCase (trim query))
      in case getClient e of
           Inl err \<Rightarrow> (Inl err, st)
         | Inr ai \<Rightarrow>
             (case generateContent query of
                Inl err \<Rightarrow> (Inl err, st)
              | Inr response \<Rightarrow>
                  (case response_text response of
                     None \<Rightarrow> (Inl NoContentGenerated, st)
                   | Some t \<Rightarrow>
                       if t = [] then (Inl NoContentGenerated, st)
                       else (case parse J t of
                               None \<Rightarrow> (Inl SyntaxError, st)
                             | Some content \<Rightarrow> (Inr content, saveToCache J st cacheKey content)))))"

definition generateSearchArticle ::
  "json_api \<Rightarrow> env \<Rightarrow> (string \<Rightarrow> error + text_response) \<Rightarrow> storage \<Rightarrow> string
     \<Rightarrow> (error + json) \<times> storage" where
  "generateSearchArticle J e generateContent st query =
     (let cacheKey = getCacheKey Search (toLowerCase (trim query))
      in case liveSearchArticle J e generateContent st query of
           (Inr content, st') \<Rightarrow> (Inr content, st')
         | (Inl err, st') \<Rightarrow>
             (let cached = getFromCache J st' cacheKey
              in if truthy cached then (Inr cached, st') else (Inl err, st')))"

definition liveHistoricalIllustration ::
  "json_api \<Rightarrow> env \<Rightarrow> (string \<Rightarrow> error + image_response) \<Rightarrow> storage \<Rightarrow> string
     \<Rightarrow> (error + json) \<times> storage" where
  \<comment> \<open>the \<open>try\<close> block of \<open>generateHistoricalIllustration\<close>: the first part with
      \<open>inlineData\<close> gives the image\<close>
  "liveHistoricalIllustration J e generateContent st prompt =
     (let cacheKey = getCacheKey Image (promptKey prompt)
      in case getClient e of
           Inl err \<Rightarrow> (Inl err, st)
         | Inr ai \<Rightarrow>
             (case generateContent prompt of
                Inl err \<Rightarrow> (Inl err, st)
              | Inr response \<Rightarrow>
                  (case find (\<lambda>part. part \<noteq> None) (response_parts response) of
                     Some (Some data) \<Rightarrow>
                       (let url = JStr (''data:image/png;base64,'' @ data)
                        in (Inr url, saveToCache J st cacheKey url))
                   | _ \<Rightarrow> (Inl NoImageGenerated, st))))"

definition generateHistoricalIllustration ::
  "json_api \<Rightarrow> env \<Rightarrow> (string \<Rightarrow> error + image_response) \<Rightarrow> storage \<Rightarrow> string
     \<Rightarrow> (error + json) \<times> storage" where
  "generateHistoricalIllustration J e generateContent st prompt =
     (let cacheKey = getCacheKey Image (promptKey prompt)
      in case liveHistoricalIllustration J e generateContent st prompt of
           (Inr url, st') \<Rightarrow> (Inr url, st')
         | (Inl err, st') \<Rightarrow>
             (let cached = getFromCache J st' cacheKey
              in if truthy cached then (Inr cached, st') else (Inl err, st')))"

section \<open>Vocabulary for the statements about the fetch operations\<close>

definition fallback :: "json_api \<Rightarrow> storage \<Rightarrow> string \<Rightarrow> error \<Rightarrow> (error + json) \<times> storage" where
  \<comment> \<open>the \<open>catch\<close> block of the three operations, for the unchanged store\<close>
  "fallback J st key err =
     (if truthy (getFromCache J st key) then (Inr (getFromCache J st key), st) else (Inl err, st))"

text \<open>The shape of \<open>HistoryContent\<close> (types.ts), as a predicate on a parsed value.\<close>

definition hasString :: "(string \<times> json) list \<Rightarrow> string \<Rightarrow> bool" where
  "hasString kvs name = (case map_of kvs name of Some (JStr s) \<Rightarrow> True | _ \<Rightarrow> False)"

definition isRecordOf :: "string list \<Rightarrow> json \<Rightarrow> bool" where
  \<comment> \<open>an object whose listed fields are strings\<close>
  "isRecordOf names v = (case v of JObj kvs \<Rightarrow> list_all (hasString kvs) names | _ \<Rightarrow> False)"

definition optionalArrayOf :: "string list \<Rightarrow> (string \<times> json) list \<Rightarrow> string \<Rightarrow> bool" where
  "optionalArrayOf names kvs name =
     (case map_of kvs name of
        None \<Rightarrow> True
      | Some (JArr xs) \<Rightarrow> list_all (isRecordOf names) xs
      | _ \<Rightarrow> False)"

definition isHistoryContent :: "json \<Rightarrow> bool" where
  "isHistoryContent v =
     (case v of
        JObj kvs \<Rightarrow>
          list_all (hasString kvs) [''title'', ''subtitle'', ''academicContext'', ''imagePrompt'']
          \<and> (case map_of kvs ''sections'' of
                Some (JArr xs) \<Rightarrow> list_all (isRecordOf [''heading'', ''body'']) xs
              | _ \<Rightarrow> False)
          \<and> optionalArrayOf [''topic'', ''reason''] kvs ''relatedTopics''
          \<and> optionalArrayOf [''term'', ''definition''] kvs ''glossary''
      | _ \<Rightarrow> False)"

text \<open>
  What the platform does on the few texts and values of the examples below:
  \<open>JSON.parse\<close> of \<open>{}\<close>, of \<open>false\<close> and of a string literal, and \<open>JSON.stringify\<close> of
  the values they denote. Every other text counts as unparseable here.
\<close>

definition exampleJSON :: json_api where
  "exampleJSON =
     \<lparr>parse = (\<lambda>s. if s = ''{}'' then Some (JObj [])
                   else if s = ''false'' then Some (JBool False)
                   else if s = [CHR 0x22, CHR ''u'', CHR 0x22] then Some (JStr ''u'')
                   else None),
      stringify = (\<lambda>v. case v of
                     JObj kvs \<Rightarrow> ''{}''
                   | JBool b \<Rightarrow> (if b then ''true'' else ''false'')
                   | JStr s \<Rightarrow> [CHR 0x22] @ s @ [CHR 0x22]
                   | _ \<Rightarrow> ''null'')\<rparr>"

definition introEra :: TimelineItem where
  \<comment> \<open>\<open>TIMELINE_DATA[0]\<close>\<close>
  "introEra = \<lparr>era_id = INTRO, title = ''Introduction'', yearRange = ''Overview'',
                description = ''Why English is the way it is.''\<rparr>"

definition noContent :: "'a \<Rightarrow> error + text_response" where
  \<comment> \<open>a service that is never reached or answers without text\<close>
  "noContent x = Inr \<lparr>response_text = None\<rparr>"

definition answering :: "string \<Rightarrow> 'a \<Rightarrow> error + text_response" where
  \<comment> \<open>a service that answers with the given text\<close>
  "answering t x = Inr \<lparr>response_text = Some t\<rparr>"

definition emptyStorage :: storage where
  "emptyStorage = \<lparr>items = [], quota = 5242880\<rparr>"

definition fullStorage :: storage where
  \<comment> \<open>a store without room for another item\<close>
  "fullStorage = \<lparr>items = [], quota = 0\<rparr>"

section \<open>The application component (App.tsx)\<close>

text \<open>
  The component keeps six state variables. Its effect, which depends on
  \<open>[selectedEraId, searchQuery]\<close>, starts \<open>fetchData\<close> and returns a cleanup that clears
  the effect's own \<open>isMounted\<close> flag. JavaScript runs each handler and each continuation
  of an \<open>await\<close> to completion, so the component is a transition system: a user event
  (with the render and the effect it triggers) is one step, and the settling of the
  promise of one effect instance is one step. The effect instances are kept in the
  order in which they were started; an instance holds its flag, the request it issued
  (none when \<open>fetchData\<close> returned before the call), and the outcome of its promise once
  settled (\<open>Inl\<close> the message of the error, empty when it has none).
\<close>

definition TIMELINE_DATA :: "TimelineItem list" where
  "TIMELINE_DATA =
    [introEra,
     \<lparr>era_id = PROTO, title = ''Before English'', yearRange = ''Pre-450 AD'',
      description = ''Indo-European roots, Celts, and Romans.''\<rparr>,
     \<lparr>era_id = OLD_ENGLISH, title = ''Old English'', yearRange = ''450 - 1100'',
      description = ''Anglo-Saxons, Beowulf, and Viking invasions.''\<rparr>,
     \<lparr>era_id = MIDDLE_ENGLISH, title = ''Middle English'', yearRange = ''1100 - 1500'',
      description = ''The Norman Conquest, Chaucer, and the Great Vowel Shift begins.''\<rparr>,
     \<lparr>era_id = EARLY_MODERN, title = ''Early Modern English'', yearRange = ''1500 - 1700'',
      description = ''Shakespeare, King James Bible, and the Printing Press.''\<rparr>,
     \<lparr>era_id = RESTORATION, title = ''Age of Reason'', yearRange = ''1700 - 1800'',
      description = ''Standardization, Dictionaries (Johnson), and Grammar prescriptivism.''\<rparr>,
     \<lparr>era_id = LATE_MODERN, title = ''Late Modern English'', yearRange = ''1800 - 1900'',
      description = ''Industrial Revolution, Colonialism, and scientific vocabulary.''\<rparr>,
     \<lparr>era_id = GLOBAL, title = ''Global English'', yearRange = ''1900 - Present'',
      description = ''Technology, the Internet, and World Englishes.''\<rparr>]"

datatype request = SearchRequest string | EraRequest TimelineItem

record effect =
  isMounted :: bool
  fetch :: "request option"
  settled :: "(string + json) option"

record app_state =
  selectedEraId :: "EraId option"
  searchQuery :: "string option"
  isSidebarOpen :: bool
  content :: json
  loading :: bool
  error :: "string option"
  effects :: "effect list"

definition apiKeyPresent :: "env \<Rightarrow> bool" where
  \<comment> \<open>the negation of \<open>!process.env.API_KEY\<close>\<close>
  "apiKeyPresent e = (case API_KEY e of None \<Rightarrow> False | Some k \<Rightarrow> k \<noteq> [])"

definition requestOf :: "EraId option \<Rightarrow> string option \<Rightarrow> request" where
  \<comment> \<open>the call that \<open>fetchData\<close> makes: search mode when \<open>searchQuery\<close> is truthy, else the
      timeline item of \<open>selectedEraId || EraId.INTRO\<close>, \<open>TIMELINE_DATA[0]\<close> when none is found\<close>
  "requestOf eraId query =
     (case query of
        Some (c # cs) \<Rightarrow> SearchRequest (c # cs)
      | _ \<Rightarrow>
         (let currentEraId = (case eraId of Some i \<Rightarrow> i | None \<Rightarrow> INTRO)
          in EraRequest (case find (\<lambda>t. era_id t = currentEraId) TIMELINE_DATA of
                           Some t \<Rightarrow> t
                         | None \<Rightarrow> hd TIMELINE_DATA)))"

definition currentRequest :: "app_state \<Rightarrow> request" where
  "currentRequest s = requestOf (selectedEraId s) (searchQuery s)"

definition fetchData :: "env \<Rightarrow> app_state \<Rightarrow> app_state" where
  \<comment> \<open>a new effect instance, and \<open>fetchData\<close> up to its \<open>await\<close>\<close>
  "fetchData e s =
     (if \<not> apiKeyPresent e
      then s\<lparr>error := Some ''API Key not found in environment.'',
             effects := effects s @ [\<lparr>isMounted = True, fetch = None, settled = None\<rparr>]\<rparr>
      else s\<lparr>loading := True, error := None,
             effects := effects s @
               [\<lparr>isMounted = True, fetch = Some (currentRequest s), settled = None\<rparr>]\<rparr>)"

definition cleanup :: "app_state \<Rightarrow> app_state" where
  \<comment> \<open>the cleanup of the effect instance started last: \<open>isMounted = false\<close>\<close>
  "cleanup s =
     s\<lparr>effects := (effects s)[length (effects s) - 1 :=
                      (effects s ! (length (effects s) - 1))\<lparr>isMounted := False\<rparr>]\<rparr>"

definition useEffect :: "env \<Rightarrow> EraId option \<times> string option \<Rightarrow> app_state \<Rightarrow> app_state" where
  \<comment> \<open>after a render: the effect runs again when a dependency differs from its previous value\<close>
  "useEffect e deps s =
     (if deps = (selectedEraId s, searchQuery s) then s else fetchData e (cleanup s))"

definition handleSelectEra :: "EraId \<Rightarrow> app_state \<Rightarrow> app_state" where
  "handleSelectEra i s = s\<lparr>searchQuery := None, selectedEraId := Some i, isSidebarOpen := False\<rparr>"

definition handleSearch :: "string \<Rightarrow> app_state \<Rightarrow> app_state" where
  "handleSearch query s = s\<lparr>selectedEraId := None, searchQuery := Some query, isSidebarOpen := False\<rparr>"

definition resume :: "nat \<Rightarrow> string + json \<Rightarrow> app_state \<Rightarrow> app_state" where
  \<comment> \<open>\<open>fetchData\<close> of effect instance \<open>i\<close> after its \<open>await\<close>: the rest of \<open>try\<close>, or \<open>catch\<close>,
      and then \<open>finally\<close>, each under \<open>if (isMounted)\<close>\<close>
  "resume i outcome s =
     (let mounted = isMounted (effects s ! i);
          s1 = (case outcome of
                  Inr data \<Rightarrow> if mounted then s\<lparr>content := data\<rparr> else s
                | Inl msg \<Rightarrow>
                    if mounted
                    then s\<lparr>error := Some (if msg \<noteq> [] then msg
                                           else ''Failed to load history content. Please try again.'')\<rparr>
                    else s)
      in if mounted then s1\<lparr>loading := False\<rparr> else s1)"

datatype event =
    SelectEra EraId
  | SearchFor string
  | OpenSidebar
  | CloseSidebar
  | Settle nat "string + json"

fun step :: "env \<Rightarrow> app_state \<Rightarrow> event \<Rightarrow> app_state" where
  "step e s (SelectEra i) = useEffect e (selectedEraId s, searchQuery s) (handleSelectEra i s)"
| "step e s (SearchFor query) = useEffect e (selectedEraId s, searchQuery s) (handleSearch query s)"
| "step e s OpenSidebar = s\<lparr>isSidebarOpen := True\<rparr>"
| "step e s CloseSidebar = s\<lparr>isSidebarOpen := False\<rparr>"
| "step e s (Settle i outcome) =
     (if i < length (effects s) \<and> fetch (effects s ! i) \<noteq> None \<and> settled (effects s ! i) = None
      then resume i outcome (s\<lparr>effects := (effects s)[i := (effects s ! i)\<lparr>settled := Some outcome\<rparr>]\<rparr>)
      else s)"

definition initial :: app_state where
  \<comment> \<open>the initial values of the \<open>useState\<close> calls\<close>
  "initial = \<lparr>selectedEraId = Some INTRO, searchQuery = None, isSidebarOpen = False,
              content = JNull, loading = False, error = None, effects = []\<rparr>"

definition run :: "env \<Rightarrow> event list \<Rightarrow> app_state" where
  \<comment> \<open>the state after the first render, its effect, and the given events\<close>
  "run e evs = foldl (step e) (fetchData e initial) evs"

definition article :: "app_state \<Rightarrow> json option" where
  \<comment> \<open>what \<open>ArticleRenderer\<close> is given: it is rendered under \<open>!loading && !error && content\<close>\<close>
  "article s =
     (if \<not> loading s \<and> (error s = None \<or> error s = Some []) \<and> truthy (content s)
      then Some (content s) else None)"

definition latest :: "app_state \<Rightarrow> effect" where
  "latest s = effects s ! (length (effects s) - 1)"

fun mirrors :: "(string + json) option \<Rightarrow> bool \<Rightarrow> string option \<Rightarrow> json \<Rightarrow> bool" where
  \<comment> \<open>how \<open>loading\<close>, \<open>error\<close> and \<open>content\<close> stand to the promise of the latest effect instance\<close>
  "mirrors None l er c = (l \<and> er = None)"
| "mirrors (Some (Inr data)) l er c = (\<not> l \<and> er = None \<and> c = data)"
| "mirrors (Some (Inl msg)) l er c = (\<not> l \<and> er \<noteq> None \<and> er \<noteq> Some [])"

definition consistent :: "env \<Rightarrow> app_state \<Rightarrow> bool" where
  \<comment> \<open>the invariant of the component: only the effect instance started last is mounted, it
      issued the request of the current selection, and the state mirrors its progress\<close>
  "consistent e s \<longleftrightarrow>
     effects s \<noteq> []
     \<and> isMounted (latest s)
     \<and> (\<forall>i. i + 1 < length (effects s) \<longrightarrow> \<not> isMounted (effects s ! i))
     \<and> (apiKeyPresent e \<longrightarrow>
          fetch (latest s) = Some (currentRequest s)
          \<and> mirrors (settled (latest s)) (loading s) (error s) (content s))
     \<and> (\<not> apiKeyPresent e \<longrightarrow>
          fetch (latest s) = None \<and> \<not> loading s
          \<and> error s = Some ''API Key not found in environment.'')"

section \<open>Properties of the cache keys\<close>

lemma char_eq_code: "(c = d) = ((of_char c :: nat) = of_char d)"
  by simp

lemma isKeyChar_chars:
  "isKeyChar c \<longleftrightarrow> c \<in> set ''abcdefghijklmnopqrstuvwxyzABCDEFGHIJKLMNOPQRSTUVWXYZ0123456789-_''"
  unfolding isKeyChar_def isLower_def isUpper_def isDigit_def
  apply (simp add: char_eq_code[of c])
  apply arith
  done

lemma filter_dropWhile_disjoint:
  "(\<And>c. Q c \<Longrightarrow> \<not> P c) \<Longrightarrow> filter P (dropWhile Q s) = filter P s"
  by (induction s) auto

lemma white_not_key: "isWhiteSpace c \<Longrightarrow> \<not> isKeyChar (toLowerChar c)"
  by (auto simp: isWhiteSpace_def isKeyChar_def toLowerChar_def isUpper_def isLower_def
      isDigit_def Let_def char_eq_code[of c])

lemma sanitize_lower_trim: "sanitize (toLowerCase (trim s)) = sanitize (toLowerCase s)"
proof -
  have "filter (isKeyChar \<circ> toLowerChar) (trim s) = filter (isKeyChar \<circ> toLowerChar) s"
    unfolding trim_def
    by (simp add: filter_dropWhile_disjoint white_not_key flip: rev_filter)
  then show ?thesis by (simp add: sanitize_def toLowerCase_def filter_map)
qed

lemma toLowerChar_upper:
  "isUpper c \<Longrightarrow> (of_char d :: nat) = of_char c + 32 \<Longrightarrow> toLowerChar c = d \<and> toLowerChar d = d"
  by (auto simp: toLowerChar_def isUpper_def Let_def char_eq_code[of _ d])

lemma caseVariant_lower: "caseVariant c d \<Longrightarrow> toLowerChar c = toLowerChar d"
  unfolding caseVariant_def using toLowerChar_upper[of c d] toLowerChar_upper[of d c] by auto

lemma sanitize_white: "list_all isWhiteSpace w \<Longrightarrow> sanitize (toLowerCase w) = []"
  by (induction w) (auto simp: sanitize_def toLowerCase_def white_not_key)

lemma caseVariant_list: "list_all2 caseVariant a b \<Longrightarrow> toLowerCase a = toLowerCase b"
  unfolding toLowerCase_def by (induction rule: list_all2_induct) (auto simp: caseVariant_lower)

lemma sanitize_append: "sanitize (a @ b) = sanitize a @ sanitize b"
  by (simp add: sanitize_def)

lemma toLowerCase_append: "toLowerCase (a @ b) = toLowerCase a @ toLowerCase b"
  by (simp add: toLowerCase_def)

lemma type_tag_inj: "type_tag t @ ''_'' @ x = type_tag t' @ ''_'' @ y \<Longrightarrow> t = t'"
  by (cases t; cases t') auto

text \<open>
  Claim C8. For every raw identifier the derived key is the fixed prefix, the category
  tag, an underscore and the raw identifier with every character outside
  \<open>[A-Za-z0-9_-]\<close> removed. For the search namespace, two queries that differ only in
  letter case and in leading and trailing white space derive the same key.
\<close>

theorem getCacheKey_alphabet_and_search_normalisation:
  "getCacheKey t rawId = CACHE_PREFIX @ type_tag t @ ''_'' @
        filter (\<lambda>c. c \<in> set ''abcdefghijklmnopqrstuvwxyzABCDEFGHIJKLMNOPQRSTUVWXYZ0123456789-_'') rawId
   \<and> (list_all isWhiteSpace w1 \<and> list_all isWhiteSpace w2 \<and> list_all isWhiteSpace v1
        \<and> list_all isWhiteSpace v2 \<and> list_all2 caseVariant a b
      \<longrightarrow> searchCacheKey (w1 @ a @ w2) = searchCacheKey (v1 @ b @ v2))"
proof (intro conjI impI)
  have "isKeyChar = (\<lambda>c. c \<in> set ''abcdefghijklmnopqrstuvwxyzABCDEFGHIJKLMNOPQRSTUVWXYZ0123456789-_'')"
    by (rule ext) (rule isKeyChar_chars)
  then show "getCacheKey t rawId = CACHE_PREFIX @ type_tag t @ ''_'' @
        filter (\<lambda>c. c \<in> set ''abcdefghijklmnopqrstuvwxyzABCDEFGHIJKLMNOPQRSTUVWXYZ0123456789-_'') rawId"
    by (simp only: getCacheKey_def sanitize_def)
next
  assume h: "list_all isWhiteSpace w1 \<and> list_all isWhiteSpace w2 \<and> list_all isWhiteSpace v1
        \<and> list_all isWhiteSpace v2 \<and> list_all2 caseVariant a b"
  then have "sanitize (toLowerCase (w1 @ a @ w2)) = sanitize (toLowerCase (v1 @ b @ v2))"
    using caseVariant_list[of a b]
    by (simp add: sanitize_append toLowerCase_append sanitize_white)
  then show "searchCacheKey (w1 @ a @ w2) = searchCacheKey (v1 @ b @ v2)"
    by (simp add: searchCacheKey_def getCacheKey_def sanitize_lower_trim)
qed

theorem getCacheKey_alphabet_and_search_normalisation_witness:
  "list_all isWhiteSpace '' '' \<and> list_all isWhiteSpace [] \<and> list_all2 caseVariant ''Shift'' ''shift''
   \<and> searchCacheKey ('' '' @ ''Shift'' @ '' '') = searchCacheKey ([] @ ''shift'' @ [])
   \<and> getCacheKey Search ''Great Vowel Shift!'' = ''chronos_cache_v1_search_GreatVowelShift''"
proof -
  have w: "list_all isWhiteSpace '' ''" "list_all isWhiteSpace []"
    by (simp_all add: isWhiteSpace_def)
  have v: "list_all2 caseVariant ''Shift'' ''shift''"
    by (simp add: caseVariant_def isUpper_def)
  note inst = getCacheKey_alphabet_and_search_normalisation
    [of Search "''Great Vowel Shift!''" "'' ''" "'' ''" "[]" "[]" "''Shift''" "''shift''"]
  from inst w v have k: "searchCacheKey ('' '' @ ''Shift'' @ '' '') = searchCacheKey ([] @ ''shift'' @ [])"
    by blast
  from inst have "getCacheKey Search ''Great Vowel Shift!'' = ''chronos_cache_v1_search_GreatVowelShift''"
    by (simp add: CACHE_PREFIX_def)
  with w v k show ?thesis by blast
qed

text \<open>
  Claim C9, as the code has it. Key derivation is a function of the category and the
  identifier. Two keys are equal exactly when the categories are equal and the
  identifiers agree after the sanitisation of \<open>getCacheKey\<close>: keys of different
  categories are distinct, and identifiers that still differ after sanitisation derive
  distinct keys. The eight era identifiers derive eight distinct keys.
\<close>

theorem getCacheKey_eq_iff:
  "(getCacheKey t a = getCacheKey t' b \<longleftrightarrow> t = t' \<and> sanitize a = sanitize b)
   \<and> (eraCacheKey e1 = eraCacheKey e2 \<longleftrightarrow> e1 = e2)"
proof -
  have 1: "getCacheKey t a = getCacheKey t' b \<longleftrightarrow> t = t' \<and> sanitize a = sanitize b" for t t' a b
    unfolding getCacheKey_def using type_tag_inj[of t "sanitize a" t' "sanitize b"] by auto
  have 2: "sanitize (eraIdString e1) = sanitize (eraIdString e2) \<longleftrightarrow> e1 = e2"
    by (cases e1; cases e2)
      (simp_all add: sanitize_def isKeyChar_def isLower_def isUpper_def isDigit_def)
  show ?thesis using 1 2 by (simp add: eraCacheKey_def)
qed

text \<open>
  The claim as stated fails for the search namespace: the queries \<open>a b\<close> and \<open>ab\<close> are
  distinct after trimming and lower-casing, and derive the same key, because the blank
  is removed by the sanitisation. It fails for the image namespace too: two prompts of
  the same length that agree on their first fifty characters derive the same key.
\<close>

theorem search_key_collision:
  "toLowerCase (trim ''a b'') \<noteq> toLowerCase (trim ''ab'')
   \<and> searchCacheKey ''a b'' = searchCacheKey ''ab''"
  by (simp add: searchCacheKey_def getCacheKey_def sanitize_def trim_def toLowerCase_def
      toLowerChar_def isWhiteSpace_def isKeyChar_def isLower_def isUpper_def isDigit_def)

lemma image_key_collision:
  "length p = length q \<Longrightarrow> take 50 p = take 50 q \<Longrightarrow> imageCacheKey p = imageCacheKey q"
  by (simp add: imageCacheKey_def promptKey_def)

section \<open>Properties of the splitting and of the matchers\<close>

lemma lastOpt_Nil [simp]: "lastOpt prev [] = prev"
  by (simp add: lastOpt_def)

lemma lastOpt_Cons [simp]: "lastOpt prev (c # w) = lastOpt (Some c) w"
  by (simp add: lastOpt_def)

lemma lastOpt_append [simp]: "lastOpt prev (u @ v) = lastOpt (lastOpt prev u) v"
  by (simp add: lastOpt_def)

lemma splitRe_None:
  "regexExec m prev (c # cs) = None \<Longrightarrow> splitRe m prev acc (c # cs) = splitRe m (Some c) (c # acc) cs"
  by simp

lemma splitRe_Some:
  "regexExec m prev (c # cs) = Some n \<Longrightarrow> \<not> (n = 0 \<and> acc = []) \<Longrightarrow>
   splitRe m prev acc (c # cs) = rev acc # take n (c # cs) #
     splitRe m (if n = 0 then prev else Some ((c # cs) ! (n - 1))) [] (drop n (c # cs))"
  by (simp only: splitRe.simps option.case if_not_P if_False)

lemma splitRe_Some0:
  "regexExec m prev (c # cs) = Some 0 \<Longrightarrow>
   splitRe m prev [] (c # cs) = splitRe m (Some c) [c] cs"
  by simp

declare splitRe.simps(2) [simp del]

lemma splitRe_skip_empty:
  "regexExec m prev (c # cs) = Some n \<Longrightarrow> n = 0 \<and> acc = [] \<Longrightarrow>
   splitRe m prev acc (c # cs) = splitRe m (Some c) (c # acc) cs"
  by (simp add: splitRe.simps(2))

lemma concat_splitRe: "concat (splitRe m prev acc s) = rev acc @ s"
proof (induction m prev acc s rule: splitRe.induct)
  case (1 m prev acc)
  then show ?case by simp
next
  case (2 m prev acc c cs)
  show ?case
  proof (cases "regexExec m prev (c # cs)")
    case None
    with 2 show ?thesis by (simp add: splitRe_None)
  next
    case (Some n)
    show ?thesis
    proof (cases "n = 0 \<and> acc = []")
      case True
      with 2 Some show ?thesis by (simp add: splitRe_skip_empty)
    next
      case False
      have "concat (splitRe m (if n = 0 then prev else Some ((c # cs) ! (n - 1))) [] (drop n (c # cs)))
            = drop n (c # cs)"
        using 2(3)[OF Some False] by simp
      then have "concat (splitRe m prev acc (c # cs)) = rev acc @ take n (c # cs) @ drop n (c # cs)"
        by (simp only: splitRe_Some[OF Some False] concat.simps)
      then show ?thesis by (simp only: append_take_drop_id)
    qed
  qed
qed

lemma concat_split: "concat (split m s) = s"
  by (simp add: split_def concat_splitRe)

lemma spanText_markSubParts: "concat (map spanText (markSubParts i xs)) = concat xs"
  by (induction xs arbitrary: i) auto

lemma glossary_markSubParts: "filter isGlossaryRef (markSubParts i xs) = []"
  by (induction xs arbitrary: i) auto

lemma concat_map_seqs_Nil: "concat (map (seqs []) xs) = xs"
  by (induction xs) simp_all

lemma seq_unit [simp]: "seq m (seqs []) = m"
  by (rule ext) (simp add: seq_def concat_map_seqs_Nil)

lemma set_seq: "set (seq m1 m2 p) = (\<Union>q \<in> set (m1 p). set (m2 q))"
  by (simp add: seq_def)

lemma lit_Cons: "lit c (prev, x # xs) = (if x = c then [(Some c, xs)] else [])"
  by (auto simp: lit_def chr_def)

lemma lit_Nil: "lit c (prev, []) = []"
  by (auto simp: lit_def chr_def)

lemma str_append: "str w (prev, w @ r) = [(if w = [] then prev else Some (last w), r)]"
  by (induction w arbitrary: prev) (auto simp: seq_def lit_Cons)

lemma str_fail: "\<not> startsWith s w \<Longrightarrow> str w (prev, s) = []"
proof (induction w arbitrary: s prev)
  case Nil
  then show ?case by (simp add: startsWith_def)
next
  case (Cons c w)
  show ?case
  proof (cases s)
    case Nil
    then show ?thesis by (simp add: seq_def lit_Nil)
  next
    case (Cons x xs)
    with Cons.prems have "x = c \<Longrightarrow> \<not> startsWith xs w" by (simp add: startsWith_def)
    with Cons.IH Cons show ?thesis by (auto simp: seq_def lit_Cons)
  qed
qed

lemma seqs_Cons_fun: "seqs (m # ms) = seq m (seqs ms)"
  by (rule ext) simp

lemma take_length_append: "n = length xs \<Longrightarrow> take n (xs @ ys) = xs"
  by simp

lemma drop_length_append: "n = length xs \<Longrightarrow> drop n (xs @ ys) = ys"
  by simp

lemma nth_length_append: "n = length xs \<Longrightarrow> xs \<noteq> [] \<Longrightarrow> (xs @ ys) ! (n - 1) = last xs"
  by (simp add: nth_append last_conv_nth)

lemma glossaryRegex_unfold:
  "glossaryRegex p = seq (str ''[['') (seq (lazyStar (\<lambda>c. \<not> isLineTerminator c)) (str '']]'')) p"
  by (simp add: glossaryRegex_def seqs_Cons_fun del: str.simps seqs.simps)

lemma glossary_no_match: "\<not> startsWith s ''[['' \<Longrightarrow> regexExec glossaryRegex prev s = None"
  by (simp add: regexExec_def glossaryRegex_unfold seq_def[of "str ''[[''"] str_fail del: str.simps)

lemma plainPiece_Cons:
  "plainPiece (c # p) \<Longrightarrow> plainPiece p \<and> \<not> startsWith (c # p @ ''[['' @ r) ''[[''"
  by (cases p) (auto simp: plainPiece_def startsWith_def)

lemma termPiece_Cons:
  "termPiece (c # t) \<Longrightarrow> termPiece t \<and> \<not> startsWith (c # t @ '']]'' @ r) '']]''"
  by (cases t) (auto simp: termPiece_def startsWith_def)

lemma lazy_close:
  "termPiece t \<Longrightarrow> singleLine t \<Longrightarrow>
   \<exists>more. seq (lazyStar (\<lambda>c. \<not> isLineTerminator c)) (str '']]'') (prev, t @ '']]'' @ r)
      = (Some CHR '']'', r) # more"
proof (induction t arbitrary: prev)
  case Nil
  have "str '']]'' (prev, '']]'' @ r) = [(Some CHR '']'', r)]"
    using str_append[of "'']]''" prev r] by simp
  then show ?case by (simp add: seq_def del: str.simps)
next
  case (Cons c t)
  from termPiece_Cons[OF Cons.prems(1), of r]
  have t: "termPiece t" and nc: "\<not> startsWith (c # t @ '']]'' @ r) '']]''" by auto
  from Cons.prems(2) have sl: "singleLine t" and c: "\<not> isLineTerminator c"
    by (auto simp: singleLine_def)
  from Cons.IH[OF t sl, of "Some c"] obtain more where
    ih: "seq (lazyStar (\<lambda>c. \<not> isLineTerminator c)) (str '']]'') (Some c, t @ '']]'' @ r)
      = (Some CHR '']'', r) # more" by blast
  have "str '']]'' (prev, c # t @ '']]'' @ r) = []"
    using str_fail[OF nc] by simp
  with ih c show ?case by (simp add: seq_def del: str.simps)
qed

lemma glossary_match:
  assumes "termPiece t" "singleLine t"
  shows "regexExec glossaryRegex prev (''[['' @ t @ '']]'' @ r) = Some (length t + 4)"
proof -
  from lazy_close[OF assms, of "Some CHR ''[''" r] obtain more where
    m: "seq (lazyStar (\<lambda>c. \<not> isLineTerminator c)) (str '']]'') (Some CHR ''['', t @ '']]'' @ r)
      = (Some CHR '']'', r) # more" by blast
  have "str ''[['' (prev, ''[['' @ t @ '']]'' @ r) = [(Some CHR ''['', t @ '']]'' @ r)]"
    using str_append[of "''[[''" prev "t @ '']]'' @ r"] by simp
  then have "glossaryRegex (prev, ''[['' @ t @ '']]'' @ r) = (Some CHR '']'', r) # more"
    using m by (simp add: glossaryRegex_unfold seq_def[of "str ''[[''"] del: str.simps)
  then show ?thesis by (simp add: regexExec_def)
qed

lemma splitRe_plain_final:
  "\<not> contains final ''[['' \<Longrightarrow> splitRe glossaryRegex prev acc final = [rev acc @ final]"
proof (induction final arbitrary: prev acc)
  case Nil
  then show ?case by simp
next
  case (Cons c cs)
  then have "\<not> startsWith (c # cs) ''[[''" "\<not> contains cs ''[[''" by auto
  with Cons.IH[of "Some c" "c # acc"] show ?case
    by (simp add: splitRe_None glossary_no_match)
qed

lemma splitRe_region:
  assumes "termPiece t" "singleLine t"
  shows "plainPiece p \<Longrightarrow>
    splitRe glossaryRegex prev acc (p @ ''[['' @ t @ '']]'' @ r)
      = (rev acc @ p) # (''[['' @ t @ '']]'') # splitRe glossaryRegex (Some CHR '']'') [] r"
proof (induction p arbitrary: prev acc)
  case Nil
  let ?s = "''[['' @ t @ '']]'' @ r"
  have e: "regexExec glossaryRegex prev (CHR ''['' # CHR ''['' # t @ '']]'' @ r) = Some (length t + 4)"
    using glossary_match[OF assms, of prev r] by simp
  have tk: "take (length t + 4) (CHR ''['' # CHR ''['' # t @ '']]'' @ r) = ''[['' @ t @ '']]''"
    using take_length_append[of "length t + 4" "''[['' @ t @ '']]''" r] by simp
  have dr: "drop (length t + 4) (CHR ''['' # CHR ''['' # t @ '']]'' @ r) = r"
    using drop_length_append[of "length t + 4" "''[['' @ t @ '']]''" r] by simp
  have nth: "(CHR ''['' # CHR ''['' # t @ '']]'' @ r) ! (length t + 4 - 1) = CHR '']''"
    using nth_length_append[of "length t + 4" "''[['' @ t @ '']]''" r] by simp
  show ?case
    using splitRe_Some[OF e, of acc] by (simp only: tk dr nth) simp
next
  case (Cons c p)
  from plainPiece_Cons[OF Cons.prems, of "t @ '']]'' @ r"]
  have p: "plainPiece p" and ns: "\<not> startsWith (c # p @ ''[['' @ t @ '']]'' @ r) ''[[''" by auto
  have "regexExec glossaryRegex prev (c # p @ ''[['' @ t @ '']]'' @ r) = None"
    using glossary_no_match[OF ns] .
  with Cons.IH[OF p, of "Some c" "c # acc"] show ?case
    by (simp add: splitRe_None)
qed

lemma splitRe_assemble:
  "regions segs final \<Longrightarrow> list_all (\<lambda>(p, t). singleLine t) segs \<Longrightarrow>
   splitRe glossaryRegex prev [] (assemble segs final) = partsOf segs final"
proof (induction segs arbitrary: prev)
  case Nil
  then show ?case by (simp add: regions_def splitRe_plain_final)
next
  case (Cons seg segs)
  obtain p t where seg: "seg = (p, t)" by (cases seg)
  from Cons.prems seg have h: "plainPiece p" "termPiece t" "singleLine t"
    "regions segs final" "list_all (\<lambda>(p, t). singleLine t) segs"
    by (auto simp: regions_def)
  show ?case
    using splitRe_region[OF h(2,3,1), of prev "[]" "assemble segs final"] Cons.IH[OF h(4,5)]
    by (simp add: seg)
qed

lemma glossary_no_empty_match: "regexExec glossaryRegex None [] = None"
  by (simp add: glossary_no_match startsWith_def)

lemma split_assemble:
  assumes "regions segs final" "list_all (\<lambda>(p, t). singleLine t) segs"
  shows "split glossaryRegex (assemble segs final) = partsOf segs final"
proof (cases "assemble segs final = []")
  case True
  then have "segs = []" "final = []" by (cases segs; auto)+
  then show ?thesis by (simp add: split_def glossary_no_empty_match)
next
  case False
  then show ?thesis using splitRe_assemble[OF assms] by (simp add: split_def)
qed

lemma renderPart_plain:
  "\<not> startsWith p ''[['' \<Longrightarrow> renderPart g p = markSubParts 0 (split dateRegex p)"
  by (simp add: renderPart_def)

lemma plainPiece_not_open: "plainPiece p \<Longrightarrow> \<not> startsWith p ''[[''"
  by (cases p rule: list.exhaust[case_product list.exhaust])
     (auto simp: plainPiece_def startsWith_def split: list.splits)

lemma no_open_not_startsWith: "\<not> contains s ''[['' \<Longrightarrow> \<not> startsWith s ''[[''"
  by (cases s) (auto simp: startsWith_def)

lemma slice_brackets: "slice (''[['' @ t @ '']]'') 2 (- 2) = t"
  by (simp add: slice_def Let_def)

lemma renderPart_term:
  "renderPart g (''[['' @ t @ '']]'') = [GlossaryRef t (lookupGlossary g t)]"
proof -
  have "startsWith (''[['' @ t @ '']]'') ''[[''" by (simp add: startsWith_def)
  moreover have "endsWith (''[['' @ t @ '']]'') '']]''" by (simp add: endsWith_def)
  ultimately show ?thesis
    unfolding renderPart_def by (simp only: slice_brackets Let_def if_True simp_thms)
qed

lemma render_partsOf:
  "\<not> contains final ''[['' \<Longrightarrow> list_all (\<lambda>(p, t). plainPiece p) segs \<Longrightarrow>
   concat (map (renderPart g) (partsOf segs final))
   = concat (map (\<lambda>(p, t). markSubParts 0 (split dateRegex p) @ [GlossaryRef t (lookupGlossary g t)]) segs)
     @ markSubParts 0 (split dateRegex final)"
proof (induction segs)
  case Nil
  then show ?case by (simp add: renderPart_plain no_open_not_startsWith)
next
  case (Cons seg segs)
  obtain p t where seg: "seg = (p, t)" by (cases seg)
  with Cons.prems have p: "plainPiece p" and rest: "list_all (\<lambda>(p, t). plainPiece p) segs" by auto
  have 1: "renderPart g p = markSubParts 0 (split dateRegex p)"
    using renderPart_plain[OF plainPiece_not_open[OF p]] .
  have 2: "renderPart g (CHR ''['' # CHR ''['' # t @ '']]'') = [GlossaryRef t (lookupGlossary g t)]"
    using renderPart_term[of g t] by simp
  show ?case using Cons.IH[OF Cons.prems(1) rest] by (simp add: seg 1 2)
qed

lemma renderRichText_regions:
  assumes "regions segs final" "list_all (\<lambda>(p, t). singleLine t) segs"
  shows "renderRichText g (assemble segs final)
   = concat (map (\<lambda>(p, t). markSubParts 0 (split dateRegex p) @ [GlossaryRef t (lookupGlossary g t)]) segs)
     @ markSubParts 0 (split dateRegex final)"
proof -
  from assms(1) have "\<not> contains final ''[[''" "list_all (\<lambda>(p, t). plainPiece p) segs"
    by (auto simp: regions_def list_all_iff)
  then show ?thesis
    unfolding renderRichText_def split_assemble[OF assms] by (rule render_partsOf)
qed

lemma regions_spans:
  "filter isGlossaryRef
     (concat (map (\<lambda>(p, t). markSubParts 0 (split dateRegex p) @ [GlossaryRef t (lookupGlossary g t)]) segs)
      @ markSubParts 0 (split dateRegex final))
   = map (\<lambda>(p, t). GlossaryRef t (lookupGlossary g t)) segs
   \<and> concat (map spanText
     (concat (map (\<lambda>(p, t). markSubParts 0 (split dateRegex p) @ [GlossaryRef t (lookupGlossary g t)]) segs)
      @ markSubParts 0 (split dateRegex final)))
   = stripped segs final"
  by (induction segs) (auto simp: glossary_markSubParts spanText_markSubParts concat_split)

lemma map_spanText_refs: "map spanText (map (\<lambda>(p, t). GlossaryRef t (f t)) segs) = map snd segs"
  by (induction segs) auto

lemma bracket_part:
  assumes "startsWith part ''[[''" "endsWith part '']]''"
  shows "part = ''[['' @ slice part 2 (- 2) @ '']]''"
proof -
  from assms(1) have "take 2 part = ''[[''" by (simp add: startsWith_def numeral_2_eq_2)
  then have "part = ''[['' @ drop 2 part" by (metis append_take_drop_id)
  then obtain r where p: "part = CHR ''['' # CHR ''['' # r" by simp
  from assms(2) p have d: "drop (length r) (CHR ''['' # CHR ''['' # r) = '']]''"
    by (simp add: endsWith_def)
  have l: "2 \<le> length r"
  proof (rule ccontr)
    assume "\<not> 2 \<le> length r"
    then have "length r = 0 \<or> length r = 1" by arith
    with d show False by (auto simp: length_Suc_conv)
  qed
  then have "drop (length r - 2) r = '']]''"
    using d by (simp add: drop_Cons' numeral_2_eq_2 split: if_splits)
  then have "r = take (length r - 2) r @ '']]''"
    by (metis append_take_drop_id)
  moreover have "slice part 2 (- 2) = take (length r - 2) r"
    using l by (simp add: slice_def Let_def p nat_diff_distrib')
  ultimately show ?thesis using p by simp
qed

lemma find_first: "P e \<Longrightarrow> \<forall>x \<in> set xs. \<not> P x \<Longrightarrow> find P (xs @ e # ys) = Some e"
  by (induction xs) auto

lemma splitRe_head: "\<exists>y qs. splitRe m prev acc s = (rev acc @ y) # qs"
proof (induction m prev acc s rule: splitRe.induct)
  case (1 m prev acc)
  then show ?case by simp
next
  case (2 m prev acc c cs)
  show ?case
  proof (cases "regexExec m prev (c # cs)")
    case None
    with 2(1) obtain y qs where "splitRe m (Some c) (c # acc) cs = (rev (c # acc) @ y) # qs" by blast
    then show ?thesis using None by (intro exI[of _ "c # y"] exI[of _ qs]) (simp add: splitRe_None)
  next
    case (Some n)
    show ?thesis
    proof (cases "n = 0 \<and> acc = []")
      case True
      with 2(2)[OF Some] obtain y qs where "splitRe m (Some c) (c # acc) cs = (rev (c # acc) @ y) # qs"
        by blast
      then show ?thesis using Some True
        by (intro exI[of _ "c # y"] exI[of _ qs]) (simp add: splitRe_skip_empty)
    next
      case False
      have "splitRe m prev acc (c # cs) = (rev acc @ []) # take n (c # cs) #
          splitRe m (if n = 0 then prev else Some ((c # cs) ! (n - 1))) [] (drop n (c # cs))"
        using splitRe_Some[OF Some False] by simp
      then show ?thesis by blast
    qed
  qed
qed

lemma nth_last_take: "0 < n \<Longrightarrow> n \<le> length a \<Longrightarrow> (a @ r) ! (n - 1) = last (take n a)"
proof -
  assume n: "0 < n" "n \<le> length a"
  then have "take n a \<noteq> []" by auto
  then have "last (take n a) = take n a ! (n - 1)"
    using n by (simp add: last_conv_nth min_def)
  also have "\<dots> = a ! (n - 1)" using n by simp
  also have "\<dots> = (a @ r) ! (n - 1)"
  proof -
    have "n - 1 < length a" using n by arith
    then show ?thesis by (simp add: nth_append)
  qed
  finally show ?thesis by simp
qed

lemma splitRe_Some_nonempty:
  "s \<noteq> [] \<Longrightarrow> regexExec m prev s = Some n \<Longrightarrow> \<not> (n = 0 \<and> acc = []) \<Longrightarrow>
   splitRe m prev acc s = rev acc # take n s #
     splitRe m (if n = 0 then prev else Some (s ! (n - 1))) [] (drop n s)"
  by (cases s) (simp_all add: splitRe_Some)

lemma splitRe_skip:
  "(\<And>d1 d2. d = d1 @ d2 \<Longrightarrow> d2 \<noteq> [] \<Longrightarrow> regexExec m (lastOpt prev d1) (d2 @ b) = None) \<Longrightarrow>
   splitRe m prev acc (d @ b) = splitRe m (lastOpt prev d) (rev d @ acc) b"
proof (induction d arbitrary: prev acc)
  case Nil
  then show ?case by simp
next
  case (Cons c d)
  have "regexExec m prev (c # d @ b) = None"
    using Cons.prems[of "[]" "c # d"] by simp
  then have 1: "splitRe m prev acc ((c # d) @ b) = splitRe m (Some c) (c # acc) (d @ b)"
    by (simp add: splitRe_None)
  have "splitRe m (Some c) (c # acc) (d @ b) = splitRe m (lastOpt (Some c) d) (rev d @ c # acc) b"
  proof (rule Cons.IH)
    fix d1 d2 assume "d = d1 @ d2" "d2 \<noteq> []"
    then show "regexExec m (lastOpt (Some c) d1) (d2 @ b) = None"
      using Cons.prems[of "c # d1" d2] by simp
  qed
  with 1 show ?case by simp
qed

lemma splitRe_plain_run:
  assumes nz: "\<And>prev s. regexExec m prev s \<noteq> Some 0"
  shows "(\<And>a1 a2 n. a = a1 @ a2 \<Longrightarrow> regexExec m (lastOpt prev a1) (a2 @ d @ b) = Some n \<Longrightarrow> n \<le> length a2)
    \<Longrightarrow> (\<And>d1 d2. d = d1 @ d2 \<Longrightarrow> d1 \<noteq> [] \<Longrightarrow> d2 \<noteq> [] \<Longrightarrow>
            regexExec m (lastOpt prev (a @ d1)) (d2 @ b) = None)
    \<Longrightarrow> \<exists>ps x. even (length ps) \<and> concat ps @ x = rev acc @ a
          \<and> splitRe m prev acc (a @ d @ b) = ps @ splitRe m (lastOpt prev (a @ d)) (rev (x @ d)) b"
proof (induction a arbitrary: prev acc rule: length_induct)
  case (1 a)
  show ?case
  proof (cases a)
    case Nil
    have "splitRe m prev acc (d @ b) = splitRe m (lastOpt prev d) (rev d @ acc) b"
    proof (rule splitRe_skip)
      fix d1 d2 assume d: "d = d1 @ d2" "d2 \<noteq> []"
      show "regexExec m (lastOpt prev d1) (d2 @ b) = None"
      proof (cases "d1 = []")
        case True
        with d have "d2 = d" by simp
        show ?thesis
        proof (cases "regexExec m prev (d @ b)")
          case None
          then show ?thesis using True \<open>d2 = d\<close> by simp
        next
          case (Some n)
          with 1(2)[of "[]" "[]" n] Nil have "n = 0" by simp
          with Some nz[of prev "d @ b"] show ?thesis by auto
        qed
      next
        case False
        with 1(3)[OF d(1) False d(2)] Nil show ?thesis by simp
      qed
    qed
    then show ?thesis using Nil
      by (intro exI[of _ "[]"] exI[of _ "rev acc"]) simp
  next
    case (Cons c a')
    show ?thesis
    proof (cases "regexExec m prev (c # a' @ d @ b)")
      case None
      have "\<exists>ps x. even (length ps) \<and> concat ps @ x = rev (c # acc) @ a'
          \<and> splitRe m (Some c) (c # acc) (a' @ d @ b)
            = ps @ splitRe m (lastOpt (Some c) (a' @ d)) (rev (x @ d)) b"
      proof (rule 1(1)[rule_format, of a' "Some c" "c # acc"])
        show "length a' < length a" using Cons by simp
      next
        fix a1 a2 n assume "a' = a1 @ a2" "regexExec m (lastOpt (Some c) a1) (a2 @ d @ b) = Some n"
        then show "n \<le> length a2" using 1(2)[of "c # a1" a2 n] Cons by simp
      next
        fix d1 d2 assume "d = d1 @ d2" "d1 \<noteq> []" "d2 \<noteq> []"
        then show "regexExec m (lastOpt (Some c) (a' @ d1)) (d2 @ b) = None"
          using 1(3)[of d1 d2] Cons by simp
      qed
      then show ?thesis using None Cons by (simp add: splitRe_None)
    next
      case (Some n)
      have n0: "n \<noteq> 0" using Some nz[of prev "c # a' @ d @ b"] by auto
      have nle: "n \<le> length a" using 1(2)[of "[]" a n] Some Cons by simp
      let ?t = "take n a" and ?r = "drop n a"
      have tne: "?t \<noteq> []" using n0 Cons by auto
      have sp: "splitRe m prev acc (a @ d @ b)
          = rev acc # ?t # splitRe m (Some (last ?t)) [] (?r @ d @ b)"
      proof -
        have "(a @ d @ b) ! (n - 1) = last ?t"
          using nle n0 nth_last_take[of n a "d @ b"] by simp
        moreover have "regexExec m prev (a @ d @ b) = Some n" "a @ d @ b \<noteq> []"
          using Some Cons by simp_all
        ultimately show ?thesis
          using splitRe_Some_nonempty[of "a @ d @ b" m prev n acc] n0 nle by simp
      qed
      have "\<exists>ps x. even (length ps) \<and> concat ps @ x = rev [] @ ?r
          \<and> splitRe m (Some (last ?t)) [] (?r @ d @ b)
            = ps @ splitRe m (lastOpt (Some (last ?t)) (?r @ d)) (rev (x @ d)) b"
      proof (rule 1(1)[rule_format, of ?r "Some (last ?t)" "[]"])
        show "length ?r < length a" using n0 Cons by simp
      next
        fix a1 a2 k assume h: "?r = a1 @ a2" "regexExec m (lastOpt (Some (last ?t)) a1) (a2 @ d @ b) = Some k"
        have "a = (?t @ a1) @ a2" using h(1) by (metis append.assoc append_take_drop_id)
        moreover have "lastOpt prev (?t @ a1) = lastOpt (Some (last ?t)) a1"
          using tne by (simp add: lastOpt_def)
        ultimately show "k \<le> length a2" using 1(2)[of "?t @ a1" a2 k] h(2) by simp
      next
        fix d1 d2 assume h: "d = d1 @ d2" "d1 \<noteq> []" "d2 \<noteq> []"
        have "lastOpt (Some (last ?t)) (?r @ d1) = lastOpt prev (a @ d1)"
          using h(2) by (simp add: lastOpt_def)
        then show "regexExec m (lastOpt (Some (last ?t)) (?r @ d1)) (d2 @ b) = None"
          using 1(3)[OF h] by simp
      qed
      then obtain ps x where ih: "even (length ps)" "concat ps @ x = ?r"
          "splitRe m (Some (last ?t)) [] (?r @ d @ b)
            = ps @ splitRe m (lastOpt (Some (last ?t)) (?r @ d)) (rev (x @ d)) b" by auto
      have lo: "lastOpt (Some (last ?t)) (?r @ d) = lastOpt prev (a @ d)"
        using tne by (cases "d = []"; cases "?r = []") (auto simp: lastOpt_def)
      show ?thesis
        apply (rule exI[of _ "rev acc # ?t # ps"], rule exI[of _ x])
        using ih sp lo by simp
    qed
  qed
qed



section \<open>Properties of the date pattern\<close>

lemma in_chr: "(p, r) \<in> set (chr P (prev, s)) \<longleftrightarrow> (\<exists>c. P c \<and> s = c # r \<and> p = Some c)"
  by (cases s) (auto simp: chr_def)

lemma in_lit: "(p, r) \<in> set (lit c (prev, s)) \<longleftrightarrow> (s = c # r \<and> p = Some c)"
  by (auto simp: lit_def in_chr)

lemma in_seq:
  "(p, r) \<in> set (seq m1 m2 (prev, s)) \<longleftrightarrow>
   (\<exists>p1 s1. (p1, s1) \<in> set (m1 (prev, s)) \<and> (p, r) \<in> set (m2 (p1, s1)))"
  by (auto simp: seq_def)

lemma in_seqs_Nil: "(p, r) \<in> set (seqs [] (prev, s)) \<longleftrightarrow> (p = prev \<and> r = s)"
  by auto

lemma in_seqs_Cons:
  "(p, r) \<in> set (seqs (m # ms) (prev, s)) \<longleftrightarrow>
   (\<exists>p1 s1. (p1, s1) \<in> set (m (prev, s)) \<and> (p, r) \<in> set (seqs ms (p1, s1)))"
  by (auto simp: seq_def)

lemma in_alts_Nil: "(p, r) \<in> set (alts [] (prev, s)) \<longleftrightarrow> False"
  by simp

lemma in_alts_Cons:
  "(p, r) \<in> set (alts (m # ms) (prev, s)) \<longleftrightarrow>
   (p, r) \<in> set (m (prev, s)) \<or> (p, r) \<in> set (alts ms (prev, s))"
  by simp

lemma in_opt: "(p, r) \<in> set (opt m (prev, s)) \<longleftrightarrow> (p, r) \<in> set (m (prev, s)) \<or> (p = prev \<and> r = s)"
  by (auto simp: opt_def)

lemma in_str: "(p, r) \<in> set (str w (prev, s)) \<longleftrightarrow> (s = w @ r \<and> p = lastOpt prev w)"
  by (induction w arbitrary: prev s) (auto simp: in_seq in_lit)

lemma in_star:
  "(p, r) \<in> set (star P (prev, s)) \<longleftrightarrow> (\<exists>w. list_all P w \<and> s = w @ r \<and> p = lastOpt prev w)"
proof (induction s arbitrary: prev)
  case Nil
  then show ?case by auto
next
  case (Cons c s)
  show ?case
  proof
    assume "(p, r) \<in> set (star P (prev, c # s))"
    then consider "P c" "(p, r) \<in> set (star P (Some c, s))" | "(p, r) = (prev, c # s)"
      by (auto split: if_splits)
    then show "\<exists>w. list_all P w \<and> c # s = w @ r \<and> p = lastOpt prev w"
    proof cases
      case 1
      with Cons.IH[of "Some c"] obtain w where "list_all P w" "s = w @ r" "p = lastOpt (Some c) w"
        by blast
      with 1 show ?thesis by (intro exI[of _ "c # w"]) simp
    next
      case 2
      then show ?thesis by (intro exI[of _ "[]"]) simp
    qed
  next
    assume "\<exists>w. list_all P w \<and> c # s = w @ r \<and> p = lastOpt prev w"
    then obtain w where w: "list_all P w" "c # s = w @ r" "p = lastOpt prev w" by blast
    show "(p, r) \<in> set (star P (prev, c # s))"
    proof (cases w)
      case Nil
      with w show ?thesis by auto
    next
      case (Cons a w')
      with w have "P c" "list_all P w'" "s = w' @ r" "p = lastOpt (Some c) w'" by auto
      with Cons.IH[of "Some c"] show ?thesis by auto
    qed
  qed
qed

lemma in_plus:
  "(p, r) \<in> set (plus P (prev, s)) \<longleftrightarrow>
   (\<exists>w. w \<noteq> [] \<and> list_all P w \<and> s = w @ r \<and> p = lastOpt prev w)"
proof
  assume "(p, r) \<in> set (plus P (prev, s))"
  then obtain c w where "P c" "list_all P w" "s = c # w @ r" "p = lastOpt (Some c) w"
    by (auto simp: plus_def in_seq in_chr in_star)
  then show "\<exists>w. w \<noteq> [] \<and> list_all P w \<and> s = w @ r \<and> p = lastOpt prev w"
    by (intro exI[of _ "c # w"]) simp
next
  assume "\<exists>w. w \<noteq> [] \<and> list_all P w \<and> s = w @ r \<and> p = lastOpt prev w"
  then obtain c w where "P c" "list_all P w" "s = c # w @ r" "p = lastOpt (Some c) w"
    by (auto simp: neq_Nil_conv)
  then show "(p, r) \<in> set (plus P (prev, s))"
    by (auto simp: plus_def in_seq in_chr in_star)
qed

lemma in_wordBoundary:
  "(p, r) \<in> set (wordBoundary (prev, s)) \<longleftrightarrow> (p = prev \<and> r = s \<and> wordBefore prev \<noteq> wordAfter s)"
  by (auto simp: wordBoundary_def wordBefore_def wordAfter_def Let_def)

lemma in_digit: "(p, r) \<in> set (digit (prev, s)) \<longleftrightarrow> (\<exists>c. isDigit c \<and> s = c # r \<and> p = Some c)"
  by (simp add: digit_def in_chr)

lemma in_charRange:
  "(p, r) \<in> set (charRange a b (prev, s)) \<longleftrightarrow>
   (\<exists>c. (of_char a :: nat) \<le> of_char c \<and> (of_char c :: nat) \<le> of_char b \<and> s = c # r \<and> p = Some c)"
  by (simp add: charRange_def in_chr)

lemmas in_matchers = in_chr in_lit in_seq in_seqs_Nil in_seqs_Cons in_alts_Nil in_alts_Cons in_opt
  in_str in_star in_plus in_wordBoundary in_digit in_charRange

lemma in_yearPattern:
  "(p, r) \<in> set (yearPattern (prev, s)) \<longleftrightarrow> (\<exists>Y. yearShape Y \<and> s = Y @ r \<and> p = Some (last Y))"
proof
  assume "(p, r) \<in> set (yearPattern (prev, s))"
  then consider
      b c where "s = CHR ''4'' # b # c # r" "isDigit b" "isDigit c" "p = Some c"
    | a b c where "s = a # b # c # r" "53 \<le> (of_char a :: nat)" "(of_char a :: nat) \<le> 57"
        "isDigit b" "isDigit c" "p = Some c"
    | b c d where "s = CHR ''1'' # b # c # d # r" "isDigit b" "isDigit c" "isDigit d" "p = Some d"
    | c d where "s = CHR ''2'' # CHR ''0'' # c # d # r" "48 \<le> (of_char c :: nat)"
        "(of_char c :: nat) \<le> 50" "isDigit d" "p = Some d"
    unfolding yearPattern_def by (auto simp: in_matchers)
  then show "\<exists>Y. yearShape Y \<and> s = Y @ r \<and> p = Some (last Y)"
  proof cases
    case 1
    then show ?thesis by (intro exI[of _ "[CHR ''4'', b, c]"]) (simp add: yearShape_def)
  next
    case 2
    then show ?thesis by (intro exI[of _ "[a, b, c]"]) (simp add: yearShape_def)
  next
    case 3
    then show ?thesis by (intro exI[of _ "[CHR ''1'', b, c, d]"]) (simp add: yearShape_def)
  next
    case 4
    then show ?thesis by (intro exI[of _ "[CHR ''2'', CHR ''0'', c, d]"]) (simp add: yearShape_def)
  qed
next
  assume "\<exists>Y. yearShape Y \<and> s = Y @ r \<and> p = Some (last Y)"
  then obtain Y where Y: "yearShape Y" "s = Y @ r" "p = Some (last Y)" by blast
  from Y(1) consider
      a b c where "Y = [a, b, c]" "52 \<le> (of_char a :: nat)" "(of_char a :: nat) \<le> 57" "isDigit b" "isDigit c"
    | b c d where "Y = [CHR ''1'', b, c, d]" "isDigit b" "isDigit c" "isDigit d"
    | c d where "Y = [CHR ''2'', CHR ''0'', c, d]" "48 \<le> (of_char c :: nat)"
        "(of_char c :: nat) \<le> 50" "isDigit d"
    by (auto simp: yearShape_def split: list.splits)
  then show "(p, r) \<in> set (yearPattern (prev, s))"
  proof cases
    case 1
    then have "a = CHR ''4'' \<or> 53 \<le> (of_char a :: nat)"
      by (auto simp: char_eq_code[of a])
    with 1 Y show ?thesis unfolding yearPattern_def by (auto simp: in_matchers)
  next
    case 2
    with Y show ?thesis unfolding yearPattern_def by (auto simp: in_matchers)
  next
    case 3
    with Y show ?thesis unfolding yearPattern_def by (auto simp: in_matchers)
  qed
qed

lemma adPrefix_iff: "adPrefix x \<longleftrightarrow> x = [] \<or> (\<exists>w. list_all isWhiteSpace w \<and> x = ''AD'' @ w)"
proof -
  have "take 2 x = ''AD'' \<Longrightarrow> x = ''AD'' @ drop 2 x"
    by (metis append_take_drop_id)
  then show ?thesis
    unfolding adPrefix_def by (auto simp: numeral_2_eq_2)
qed

lemma not_white_B: "\<not> isWhiteSpace CHR ''B''" "\<not> isWhiteSpace CHR ''A''"
  by (simp_all add: isWhiteSpace_def)

lemma dropWhile_white_append:
  "list_all isWhiteSpace w \<Longrightarrow> \<not> isWhiteSpace c \<Longrightarrow> dropWhile isWhiteSpace (w @ c # r) = c # r"
  by (induction w) auto

lemma dateSuffix_iff:
  "dateSuffix y \<longleftrightarrow> y = [] \<or> y = ''s''
     \<or> (\<exists>w. list_all isWhiteSpace w \<and> (y = w @ ''BC'' \<or> y = w @ ''AD''))"
proof
  assume "dateSuffix y"
  moreover have "y = takeWhile isWhiteSpace y @ dropWhile isWhiteSpace y" by simp
  moreover have "list_all isWhiteSpace (takeWhile isWhiteSpace y)"
    by (simp add: list_all_iff) (meson set_takeWhileD)
  ultimately show "y = [] \<or> y = ''s'' \<or> (\<exists>w. list_all isWhiteSpace w \<and> (y = w @ ''BC'' \<or> y = w @ ''AD''))"
    unfolding dateSuffix_def by metis
next
  assume "y = [] \<or> y = ''s'' \<or> (\<exists>w. list_all isWhiteSpace w \<and> (y = w @ ''BC'' \<or> y = w @ ''AD''))"
  then show "dateSuffix y"
    unfolding dateSuffix_def
    using dropWhile_white_append[of _ "CHR ''B''" "''C''"] dropWhile_white_append[of _ "CHR ''A''" "''D''"]
    by (auto simp: not_white_B)
qed

lemma in_adPattern:
  "(p, r) \<in> set (adPattern (prev, s)) \<longleftrightarrow> (\<exists>x. adPrefix x \<and> s = x @ r \<and> p = lastOpt prev x)"
  unfolding adPattern_def adPrefix_iff
  by (auto simp: in_matchers)

lemma in_suffixPattern:
  "(p, r) \<in> set (suffixPattern (prev, s)) \<longleftrightarrow> (\<exists>y. dateSuffix y \<and> s = y @ r \<and> p = lastOpt prev y)"
  unfolding suffixPattern_def dateSuffix_iff
  by (auto simp: in_matchers)

lemma yearShape_digits: "yearShape Y \<Longrightarrow> Y \<noteq> [] \<and> list_all isDigit Y \<and> isDigit (hd Y) \<and> isDigit (last Y)"
  by (auto simp: yearShape_def isDigit_def split: list.splits)

lemma digit_word: "isDigit c \<Longrightarrow> isWordChar c"
  by (simp add: isWordChar_def)

lemma white_not_word: "isWhiteSpace c \<Longrightarrow> \<not> isWordChar c"
  by (auto simp: isWhiteSpace_def isWordChar_def isLower_def isUpper_def isDigit_def char_eq_code[of c])

lemma white_not_digit: "isWhiteSpace c \<Longrightarrow> \<not> isDigit c"
  using digit_word white_not_word by blast

lemma word_letters:
  "isWordChar CHR ''A''" "isWordChar CHR ''D''" "isWordChar CHR ''B''" "isWordChar CHR ''C''"
  "isWordChar CHR ''s''" "isWordChar CHR ''y''" "isWordChar CHR ''t''" "isWordChar CHR ''n''"
  "isWordChar CHR ''r''"
  "\<not> isDigit CHR ''A''" "\<not> isDigit CHR ''D''" "\<not> isDigit CHR ''B''" "\<not> isDigit CHR ''C''"
  "\<not> isDigit CHR ''s''"
  by (simp_all add: isWordChar_def isUpper_def isLower_def isDigit_def)

lemma adPrefix_facts:
  "adPrefix x \<Longrightarrow> noDigits x \<and> list_all (\<lambda>c. isWordChar c \<or> isWhiteSpace c) x
     \<and> (x \<noteq> [] \<longrightarrow> hd x = CHR ''A'')"
  unfolding adPrefix_iff noDigits_def
  by (auto simp: word_letters list_all_iff white_not_digit)

lemma dateSuffix_facts:
  "dateSuffix y \<Longrightarrow> noDigits y \<and> list_all (\<lambda>c. isWordChar c \<or> isWhiteSpace c) y
     \<and> (y \<noteq> [] \<longrightarrow> isWordChar (last y))"
  unfolding dateSuffix_iff noDigits_def
  by (auto simp: word_letters list_all_iff white_not_digit)

lemma wordAfter_Cons [simp]: "wordAfter (c # s) = isWordChar c"
  by (simp add: wordAfter_def)

lemma wordAfter_Nil [simp]: "wordAfter [] = False"
  by (simp add: wordAfter_def)

lemma wordBefore_Some [simp]: "wordBefore (Some c) = isWordChar c"
  by (simp add: wordBefore_def)

lemma wordBefore_None [simp]: "wordBefore None = False"
  by (simp add: wordBefore_def)

lemma wordAfter_append: "u \<noteq> [] \<Longrightarrow> wordAfter (u @ v) = isWordChar (hd u)"
  by (cases u) auto

lemma lastOpt_nonempty: "u \<noteq> [] \<Longrightarrow> lastOpt prev u = Some (last u)"
  by (simp add: lastOpt_def)

lemma in_yearDate:
  "(p, r) \<in> set (yearDate (prev, s)) \<longleftrightarrow>
   (\<exists>x Y y. adPrefix x \<and> yearShape Y \<and> dateSuffix y \<and> s = x @ Y @ y @ r
      \<and> p = Some (last (Y @ y)) \<and> \<not> wordBefore prev \<and> \<not> wordAfter r)"
proof
  assume "(p, r) \<in> set (yearDate (prev, s))"
  then obtain x Y y where h: "adPrefix x" "yearShape Y" "dateSuffix y" "s = x @ Y @ y @ r"
    "p = lastOpt (Some (last Y)) y" "wordBefore prev \<noteq> wordAfter s" "wordBefore p \<noteq> wordAfter r"
    unfolding yearDate_def
    by (auto simp: in_seqs_Cons in_seqs_Nil in_wordBoundary in_adPattern in_suffixPattern in_yearPattern
        simp del: seqs.simps)
  from yearShape_digits[OF h(2)] have Y: "Y \<noteq> []" "isDigit (hd Y)" "isDigit (last Y)" by auto
  have p: "p = Some (last (Y @ y))" using h(5) Y(1) by (simp add: lastOpt_def)
  have "isWordChar (last (Y @ y))"
    using dateSuffix_facts[OF h(3)] Y by (cases "y = []") (auto simp: digit_word)
  then have 1: "\<not> wordAfter r" using h(7) p by simp
  have "wordAfter s"
  proof (cases "x = []")
    case True
    then show ?thesis using h(4) Y by (simp add: wordAfter_append digit_word)
  next
    case False
    then show ?thesis using h(4) adPrefix_facts[OF h(1)] by (simp add: wordAfter_append word_letters)
  qed
  then have 2: "\<not> wordBefore prev" using h(6) by simp
  from h p 1 2 show "\<exists>x Y y. adPrefix x \<and> yearShape Y \<and> dateSuffix y \<and> s = x @ Y @ y @ r
      \<and> p = Some (last (Y @ y)) \<and> \<not> wordBefore prev \<and> \<not> wordAfter r" by blast
next
  assume "\<exists>x Y y. adPrefix x \<and> yearShape Y \<and> dateSuffix y \<and> s = x @ Y @ y @ r
      \<and> p = Some (last (Y @ y)) \<and> \<not> wordBefore prev \<and> \<not> wordAfter r"
  then obtain x Y y where h: "adPrefix x" "yearShape Y" "dateSuffix y" "s = x @ Y @ y @ r"
    "p = Some (last (Y @ y))" "\<not> wordBefore prev" "\<not> wordAfter r" by blast
  from yearShape_digits[OF h(2)] have Y: "Y \<noteq> []" "isDigit (hd Y)" "isDigit (last Y)" by auto
  have w: "isWordChar (last (Y @ y))"
    using dateSuffix_facts[OF h(3)] Y by (cases "y = []") (auto simp: digit_word)
  have s: "wordAfter s"
  proof (cases "x = []")
    case True
    then show ?thesis using h(4) Y by (simp add: wordAfter_append digit_word)
  next
    case False
    then show ?thesis using h(4) adPrefix_facts[OF h(1)] by (simp add: wordAfter_append word_letters)
  qed
  have a: "(lastOpt prev x, Y @ y @ r) \<in> set (adPattern (prev, s))"
    using h(1,4) by (auto simp: in_adPattern)
  have b: "(Some (last Y), y @ r) \<in> set (yearPattern (lastOpt prev x, Y @ y @ r))"
    using h(2) by (auto simp: in_yearPattern)
  have c: "(p, r) \<in> set (suffixPattern (Some (last Y), y @ r))"
    using h(3,5) Y(1) by (auto simp: in_suffixPattern lastOpt_def)
  show "(p, r) \<in> set (yearDate (prev, s))"
    unfolding yearDate_def
    apply (simp only: in_seqs_Cons in_seqs_Nil in_wordBoundary)
    using a b c s h(5,6,7) w by (auto simp del: seqs.simps)
qed

lemma century_tail:
  assumes "list_all isWhiteSpace w" "w \<noteq> []" "c = CHR ''C'' \<or> c = CHR ''c''"
    "o1 = ''st'' \<or> o1 = ''nd'' \<or> o1 = ''rd'' \<or> o1 = ''th''"
  shows "noDigits (o1 @ w @ c # ''entury'') \<and> wordAfter (o1 @ w @ c # ''entury'')
     \<and> list_all (\<lambda>c. isWordChar c \<or> isWhiteSpace c) (o1 @ w @ c # ''entury'')"
proof -
  have w: "noDigits w" "list_all (\<lambda>c. isWordChar c \<or> isWhiteSpace c) w"
    using assms(1) by (auto simp: noDigits_def list_all_iff white_not_digit)
  have c: "\<not> isDigit c" "isWordChar c"
    using assms(3) by (auto simp: isDigit_def isWordChar_def isLower_def isUpper_def)
  have o: "noDigits o1" "list_all (\<lambda>c. isWordChar c \<or> isWhiteSpace c) o1" "wordAfter (o1 @ z)" for z
    using assms(4) by (auto simp: noDigits_def isDigit_def isWordChar_def isLower_def isUpper_def)
  have e: "noDigits ''entury''" "list_all (\<lambda>c. isWordChar c \<or> isWhiteSpace c) ''entury''"
    by (auto simp: noDigits_def isDigit_def isWordChar_def isLower_def isUpper_def)
  from w c o(1,2) o(3)[of "w @ c # ''entury''"] e show ?thesis
    by (simp add: noDigits_def)
qed

lemma in_centuryDate:
  assumes "(p, r) \<in> set (centuryDate (prev, s))"
  shows "\<exists>D y. s = D @ y @ r \<and> D \<noteq> [] \<and> length D \<le> 2 \<and> list_all isDigit D \<and> noDigits y
     \<and> wordAfter y \<and> list_all (\<lambda>c. isWordChar c \<or> isWhiteSpace c) (D @ y)
     \<and> \<not> wordBefore prev \<and> \<not> wordAfter r"
proof -
  from assms have "\<exists>d1 s1 p2 s2 o1 w c. s = d1 # s1 \<and> isDigit d1
      \<and> (p2, s2) \<in> set (opt digit (Some d1, s1))
      \<and> s2 = o1 @ w @ c # ''entury'' @ r
      \<and> (o1 = ''st'' \<or> o1 = ''nd'' \<or> o1 = ''rd'' \<or> o1 = ''th'')
      \<and> list_all isWhiteSpace w \<and> w \<noteq> [] \<and> (c = CHR ''C'' \<or> c = CHR ''c'')
      \<and> wordBefore prev = (\<not> wordAfter s)
      \<and> wordBefore (Some CHR ''y'') = (\<not> wordAfter r)"
    unfolding centuryDate_def
    apply (simp only: in_seqs_Cons in_seqs_Nil in_wordBoundary in_digit in_alts_Cons in_alts_Nil
          in_str in_plus in_chr)
    apply (elim exE conjE)
    apply (simp only: lastOpt_Nil lastOpt_Cons prod.inject simp_thms)
    apply blast
    done
  then obtain d1 s1 p2 s2 o1 w c where a: "s = d1 # s1" "isDigit d1"
      "(p2, s2) \<in> set (opt digit (Some d1, s1))"
      "s2 = o1 @ w @ c # ''entury'' @ r"
      "o1 = ''st'' \<or> o1 = ''nd'' \<or> o1 = ''rd'' \<or> o1 = ''th''"
      "list_all isWhiteSpace w" "w \<noteq> []" "c = CHR ''C'' \<or> c = CHR ''c''"
      "wordBefore prev = (\<not> wordAfter s)"
      "wordBefore (Some CHR ''y'') = (\<not> wordAfter r)"
    by blast
  from a(3) have "(\<exists>d2. isDigit d2 \<and> s1 = d2 # s2) \<or> s1 = s2"
    by (auto simp: in_opt in_digit)
  then obtain D where D: "s = D @ s2" "D \<noteq> []" "list_all isDigit D" "length D \<le> 2"
  proof
    assume "\<exists>d2. isDigit d2 \<and> s1 = d2 # s2"
    then obtain d2 where "isDigit d2" "s1 = d2 # s2" by blast
    then show ?thesis using that[of "[d1, d2]"] a(1,2) by simp
  next
    assume "s1 = s2"
    then show ?thesis using that[of "[d1]"] a(1,2) by simp
  qed
  note t = century_tail[OF a(6,7,8,5)]
  have 1: "\<not> wordBefore prev" using a(9,1,2) by (simp add: digit_word)
  have 2: "\<not> wordAfter r" using a(10) by (simp add: word_letters)
  have 3: "list_all (\<lambda>c. isWordChar c \<or> isWhiteSpace c) D"
    using D(3) by (auto simp: list_all_iff digit_word)
  show ?thesis
    apply (rule exI[of _ D], rule exI[of _ "o1 @ w @ c # ''entury''"])
    using D a(4) t 1 2 3 by simp
qed

lemma date_match_shape:
  assumes "(p, r) \<in> set (dateRegex (prev, s))"
  shows "\<exists>x Y y. s = x @ Y @ y @ r \<and> noDigits x \<and> Y \<noteq> [] \<and> list_all isDigit Y \<and> noDigits y
        \<and> ((adPrefix x \<and> yearShape Y \<and> dateSuffix y) \<or> (x = [] \<and> wordAfter y \<and> length Y \<le> 2))
        \<and> list_all (\<lambda>c. isWordChar c \<or> isWhiteSpace c) (x @ Y @ y)
        \<and> \<not> wordBefore prev \<and> \<not> wordAfter r"
proof -
  from assms consider "(p, r) \<in> set (yearDate (prev, s))" | "(p, r) \<in> set (centuryDate (prev, s))"
    by (auto simp: dateRegex_def)
  then show ?thesis
  proof cases
    case 1
    then obtain x Y y where h: "adPrefix x" "yearShape Y" "dateSuffix y" "s = x @ Y @ y @ r"
      "\<not> wordBefore prev" "\<not> wordAfter r"
      by (auto simp: in_yearDate)
    have "list_all (\<lambda>c. isWordChar c \<or> isWhiteSpace c) Y"
      using yearShape_digits[OF h(2)] by (auto simp: list_all_iff digit_word)
    then show ?thesis
      using h adPrefix_facts[OF h(1)] dateSuffix_facts[OF h(3)] yearShape_digits[OF h(2)]
      by (intro exI[of _ x] exI[of _ Y] exI[of _ y]) simp
  next
    case 2
    from in_centuryDate[OF 2] obtain D y where h: "s = D @ y @ r" "D \<noteq> []" "length D \<le> 2"
      "list_all isDigit D" "noDigits y" "wordAfter y" "list_all (\<lambda>c. isWordChar c \<or> isWhiteSpace c) (D @ y)"
      "\<not> wordBefore prev" "\<not> wordAfter r" by blast
    then show ?thesis
      by (intro exI[of _ "[]"] exI[of _ D] exI[of _ y]) (simp add: noDigits_def)
  qed
qed



lemma regexExec_Some_in:
  "regexExec m prev s = Some n \<Longrightarrow> \<exists>p r. (p, r) \<in> set (m (prev, s)) \<and> n = length s - length r"
  by (cases "m (prev, s)") (fastforce simp: regexExec_def)+


lemma date_nz: "regexExec dateRegex prev s \<noteq> Some 0"
proof
  assume "regexExec dateRegex prev s = Some 0"
  from regexExec_Some_in[OF this] obtain p r where m: "(p, r) \<in> set (dateRegex (prev, s))"
    and n: "0 = length s - length r" by blast
  from date_match_shape[OF m] obtain x Y y where "s = x @ Y @ y @ r" "Y \<noteq> []" by blast
  with n show False by simp
qed


lemma digitValue: "isDigit c \<Longrightarrow> digitValue c < 10 \<and> (of_char c :: nat) = 48 + digitValue c"
  by (auto simp: isDigit_def digitValue_def)







lemma digitValue_eq: "isDigit c \<Longrightarrow> digitValue c = k \<Longrightarrow> (of_char c :: nat) = 48 + k"
  using digitValue[of c] by simp















lemma markSubParts_append:
  "markSubParts i (ps @ qs) = markSubParts i ps @ markSubParts (i + length ps) qs"
  by (induction ps arbitrary: i) auto


lemma markSubParts_even:
  "even (length ps) \<Longrightarrow>
   markSubParts 0 (ps @ m # qs) = markSubParts 0 ps @ PlainText m # markSubParts (Suc (length ps)) qs"
  by (simp add: markSubParts_append even_iff_mod_2_eq_zero)


section \<open>An unterminated delimiter\<close>

lemma in_lazyStar:
  "(p, r) \<in> set (lazyStar P (prev, s)) \<longleftrightarrow> (\<exists>w. list_all P w \<and> s = w @ r \<and> p = lastOpt prev w)"
proof (induction s arbitrary: prev)
  case Nil
  then show ?case by auto
next
  case (Cons c s)
  show ?case
  proof
    assume "(p, r) \<in> set (lazyStar P (prev, c # s))"
    then consider "P c" "(p, r) \<in> set (lazyStar P (Some c, s))" | "(p, r) = (prev, c # s)"
      by (auto split: if_splits)
    then show "\<exists>w. list_all P w \<and> c # s = w @ r \<and> p = lastOpt prev w"
    proof cases
      case 1
      with Cons.IH[of "Some c"] obtain w where "list_all P w" "s = w @ r" "p = lastOpt (Some c) w"
        by blast
      with 1 show ?thesis by (intro exI[of _ "c # w"]) simp
    next
      case 2
      then show ?thesis by (intro exI[of _ "[]"]) simp
    qed
  next
    assume "\<exists>w. list_all P w \<and> c # s = w @ r \<and> p = lastOpt prev w"
    then obtain w where w: "list_all P w" "c # s = w @ r" "p = lastOpt prev w" by blast
    show "(p, r) \<in> set (lazyStar P (prev, c # s))"
    proof (cases w)
      case Nil
      with w show ?thesis by auto
    next
      case (Cons a w')
      with w have "P c" "list_all P w'" "s = w' @ r" "p = lastOpt (Some c) w'" by auto
      with Cons.IH[of "Some c"] show ?thesis by auto
    qed
  qed
qed

lemma glossary_match_shape:
  assumes "(p, r) \<in> set (glossaryRegex (prev, s))"
  shows "\<exists>t. s = ''[['' @ t @ '']]'' @ r"
  using assms unfolding glossaryRegex_def
  by (auto simp: in_seqs_Cons in_seqs_Nil in_str in_lazyStar simp del: seqs.simps str.simps)

lemma contains_startsWith: "startsWith s sub \<Longrightarrow> contains s sub"
  by (cases s) (auto simp: startsWith_def)

lemma contains_append: "contains (u @ sub @ v) sub"
proof (induction u)
  case Nil
  have "startsWith (sub @ v) sub" by (simp add: startsWith_def)
  then show ?case by (simp add: contains_startsWith)
next
  case (Cons c u)
  then show ?case by simp
qed

lemma contains_drop: "contains (drop k s) sub \<Longrightarrow> contains s sub"
proof (induction s arbitrary: k)
  case Nil
  then show ?case by simp
next
  case (Cons c s)
  then show ?case by (cases k) auto
qed

lemma suffix2:
  assumes "xs @ [p, q] = ys @ zs" "2 \<le> length zs"
  shows "\<exists>z. zs = z @ [p, q]"
proof -
  from assms(1) obtain k where "(xs = ys @ k \<and> k @ [p, q] = zs) \<or> (xs @ k = ys \<and> [p, q] = k @ zs)"
    using append_eq_append_conv2[of xs "[p, q]" ys zs] by blast
  then show ?thesis
  proof
    assume "xs = ys @ k \<and> k @ [p, q] = zs"
    then show ?thesis by blast
  next
    assume h: "xs @ k = ys \<and> [p, q] = k @ zs"
    then have "length k + length zs = 2" by (metis length_append length_Cons list.size(3) numeral_2_eq_2)
    with assms(2) have "length k = 0" by linarith
    then have "k = []" by simp
    with h show ?thesis by auto
  qed
qed

lemma glossary_nz: "regexExec glossaryRegex prev s \<noteq> Some 0"
proof
  assume "regexExec glossaryRegex prev s = Some 0"
  from regexExec_Some_in[OF this] obtain p r where m: "(p, r) \<in> set (glossaryRegex (prev, s))"
    and n: "0 = length s - length r" by blast
  from glossary_match_shape[OF m] n show False by auto
qed

lemma glossary_match_needs_close:
  assumes e: "regexExec glossaryRegex prev (a2 @ ''[['' @ b) = Some n" and nc: "\<not> contains b '']]''"
  shows "n \<le> length a2"
proof (rule ccontr)
  assume gt: "\<not> n \<le> length a2"
  from regexExec_Some_in[OF e] obtain p r where m: "(p, r) \<in> set (glossaryRegex (prev, a2 @ ''[['' @ b))"
    and n: "n = length (a2 @ ''[['' @ b) - length r" by blast
  from glossary_match_shape[OF m] obtain t where t: "a2 @ ''[['' @ b = (''[['' @ t @ '']]'') @ r" by auto
  then have n': "n = length (''[['' @ t @ '']]'')" using n by (metis add_diff_cancel_right' length_append)
  from t obtain k where "(''[['' @ t @ '']]'' = a2 @ k \<and> k @ r = ''[['' @ b)
      \<or> ((''[['' @ t @ '']]'') @ k = a2 \<and> r = k @ ''[['' @ b)"
    using append_eq_append_conv2[of "''[['' @ t @ '']]''" r a2 "''[['' @ b"] by metis
  then show False
  proof
    assume "(''[['' @ t @ '']]'') @ k = a2 \<and> r = k @ ''[['' @ b"
    then have "length (''[['' @ t @ '']]'') \<le> length a2" by (metis length_append le_add1)
    with n' gt show False by simp
  next
    assume h: "''[['' @ t @ '']]'' = a2 @ k \<and> k @ r = ''[['' @ b"
    then have w: "(''[['' @ t) @ [CHR '']'', CHR '']''] = a2 @ k" by simp
    have kne: "k \<noteq> []" using h n' gt by auto
    have lastk: "last k = CHR '']''" using w kne by (metis last_appendR last.simps list.distinct(1))
    from h have pre: "k @ r = CHR ''['' # CHR ''['' # b" by simp
    show False
    proof (cases k)
      case Nil
      with kne show ?thesis by simp
    next
      case (Cons c1 k1)
      with pre have c1: "c1 = CHR ''[''" "k1 @ r = CHR ''['' # b" by auto
      show ?thesis
      proof (cases k1)
        case Nil
        with Cons c1 lastk show ?thesis by simp
      next
        case (Cons c2 k2)
        with c1 have c2: "c2 = CHR ''[''" "k2 @ r = b" by auto
        show ?thesis
        proof (cases "2 \<le> length k2")
          case True
          have "(''[['' @ t) @ [CHR '']'', CHR '']''] = (a2 @ [c1, c2]) @ k2"
            using w \<open>k = c1 # k1\<close> Cons by simp
          from suffix2[OF this True] obtain z where "k2 = z @ '']]''" by auto
          with c2 have "b = z @ '']]'' @ r" by simp
          with contains_append[of z "'']]''" r] nc show ?thesis by simp
        next
          case False
          then have "length k2 = 0 \<or> length k2 = 1" by linarith
          then consider "k2 = []" | c3 where "k2 = [c3]"
            by (auto simp: length_Suc_conv)
          then show ?thesis
          proof cases
            case 1
            with Cons \<open>k = c1 # k1\<close> c1 c2 lastk show ?thesis by simp
          next
            case 2
            have "c2 = CHR '']''"
              using w \<open>k = c1 # k1\<close> Cons 2 by auto
            with c2 show ?thesis by simp
          qed
        qed
      qed
    qed
  qed
qed

lemma unterminated_split:
  assumes nc: "\<not> contains b '']]''"
  shows "\<exists>ps x. even (length ps) \<and> concat ps @ x = a
      \<and> split glossaryRegex (a @ ''[['' @ b) = ps @ [x @ ''[['' @ b]"
proof -
  have "\<exists>ps x. even (length ps) \<and> concat ps @ x = rev [] @ a
          \<and> splitRe glossaryRegex None [] (a @ (''[['' @ b) @ [])
            = ps @ splitRe glossaryRegex (lastOpt None (a @ (''[['' @ b))) (rev (x @ (''[['' @ b))) []"
  proof (rule splitRe_plain_run[OF glossary_nz])
    fix a1 a2 n
    assume "a = a1 @ a2" "regexExec glossaryRegex (lastOpt None a1) (a2 @ (''[['' @ b) @ []) = Some n"
    then show "n \<le> length a2" using glossary_match_needs_close[OF _ nc, of "lastOpt None a1" a2 n] by simp
  next
    fix d1 d2 assume h: "''[['' @ b = d1 @ d2" "d1 \<noteq> []" "d2 \<noteq> []"
    show "regexExec glossaryRegex (lastOpt None (a @ d1)) (d2 @ []) = None"
    proof (rule ccontr)
      assume "regexExec glossaryRegex (lastOpt None (a @ d1)) (d2 @ []) \<noteq> None"
      then obtain n where "regexExec glossaryRegex (lastOpt None (a @ d1)) d2 = Some n" by auto
      from regexExec_Some_in[OF this] obtain p r where "(p, r) \<in> set (glossaryRegex (lastOpt None (a @ d1), d2))"
        by blast
      from glossary_match_shape[OF this] obtain t where t: "d2 = ''[['' @ t @ '']]'' @ r" by blast
      then have "drop 2 d2 = t @ '']]'' @ r" by simp
      then have c: "contains (drop 2 d2) '']]''" using contains_append[of t "'']]''" r] by simp
      have "d2 = drop (length d1) (''[['' @ b)" using h(1) by simp
      then have "drop 2 d2 = drop (length d1 + 2) (''[['' @ b)" by (simp add: add.commute)
      also have "\<dots> = drop (length d1) b" by simp
      finally have "contains (drop (length d1) b) '']]''" using c by simp
      with contains_drop nc show False by blast
    qed
  qed
  then obtain ps x where "even (length ps)" "concat ps @ x = a"
    "splitRe glossaryRegex None [] (a @ ''[['' @ b) = ps @ [x @ ''[['' @ b]" by auto
  then show ?thesis by (auto simp: split_def)
qed

lemma bracket_not_word: "\<not> (isWordChar CHR ''['' \<or> isWhiteSpace CHR ''['')"
  by (simp add: isWordChar_def isWhiteSpace_def isLower_def isUpper_def isDigit_def)

lemma date_match_no_bracket:
  assumes "regexExec dateRegex prev (a2 @ CHR ''['' # v) = Some n"
  shows "n \<le> length a2"
proof (rule ccontr)
  assume gt: "\<not> n \<le> length a2"
  from regexExec_Some_in[OF assms] obtain p r where m: "(p, r) \<in> set (dateRegex (prev, a2 @ CHR ''['' # v))"
    and n: "n = length (a2 @ CHR ''['' # v) - length r" by blast
  from date_match_shape[OF m] obtain w where w: "a2 @ CHR ''['' # v = w @ r"
    "list_all (\<lambda>c. isWordChar c \<or> isWhiteSpace c) w"
    by (metis append.assoc)
  then have nw: "n = length w" using n by (metis add_diff_cancel_right' length_append)
  from w(1) obtain k where "(a2 = w @ k \<and> k @ CHR ''['' # v = r) \<or> (a2 @ k = w \<and> CHR ''['' # v = k @ r)"
    using append_eq_append_conv2[of a2 "CHR ''['' # v" w r] by blast
  then show False
  proof
    assume "a2 = w @ k \<and> k @ CHR ''['' # v = r"
    then have "length w \<le> length a2" by simp
    with nw gt show False by simp
  next
    assume h: "a2 @ k = w \<and> CHR ''['' # v = k @ r"
    with nw gt have "k \<noteq> []" by auto
    with h have "hd k = CHR ''[''" by (cases k) auto
    with \<open>k \<noteq> []\<close> h have "CHR ''['' \<in> set w" by (cases k) auto
    with w(2) bracket_not_word show False by (auto simp: list_all_iff)
  qed
qed

lemma date_split_keeps_delimiter:
  "\<exists>ps u y qs. even (length ps) \<and> concat ps @ u = x
      \<and> split dateRegex (x @ ''[['' @ v) = ps @ (u @ ''[['' @ y) # qs"
proof -
  have "\<exists>ps u. even (length ps) \<and> concat ps @ u = rev [] @ x
          \<and> splitRe dateRegex None [] (x @ ''[['' @ v)
            = ps @ splitRe dateRegex (lastOpt None (x @ ''[['')) (rev (u @ ''[['')) v"
  proof (rule splitRe_plain_run[OF date_nz])
    fix a1 a2 n
    assume "x = a1 @ a2" "regexExec dateRegex (lastOpt None a1) (a2 @ ''[['' @ v) = Some n"
    then show "n \<le> length a2"
      using date_match_no_bracket[of "lastOpt None a1" a2 "CHR ''['' # v" n] by simp
  next
    fix d1 d2 assume h: "''[['' = d1 @ d2" "d1 \<noteq> []" "d2 \<noteq> []"
    then have d2: "d2 = ''[''" by (cases d1; cases d2) (auto simp: Cons_eq_append_conv)
    show "regexExec dateRegex (lastOpt None (x @ d1)) (d2 @ v) = None"
    proof (cases "regexExec dateRegex (lastOpt None (x @ d1)) (d2 @ v)")
      case None
      then show ?thesis .
    next
      case (Some n)
      with date_match_no_bracket[of "lastOpt None (x @ d1)" "[]" v n] d2 have "n = 0" by simp
      with Some date_nz show ?thesis by blast
    qed
  qed
  then obtain ps u where c: "even (length ps)" "concat ps @ u = x"
    "splitRe dateRegex None [] (x @ ''[['' @ v)
            = ps @ splitRe dateRegex (lastOpt None (x @ ''[['')) (rev (u @ ''[['')) v" by auto
  from splitRe_head[of dateRegex "lastOpt None (x @ ''[['')" "rev (u @ ''[['')" v]
  obtain y qs where "splitRe dateRegex (lastOpt None (x @ ''[['')) (rev (u @ ''[['')) v
      = (u @ ''[['' @ y) # qs" by auto
  with c show ?thesis by (auto simp: split_def)
qed

lemma unterminated_plainPart:
  assumes nc: "\<not> contains b '']]''"
  shows "plainPart (x @ ''[['' @ b)"
proof -
  have "\<not> endsWith (x @ ''[['' @ b) '']]''"
  proof
    assume "endsWith (x @ ''[['' @ b) '']]''"
    then have "x @ ''[['' @ b = take (length (x @ ''[['' @ b) - 2) (x @ ''[['' @ b) @ '']]''"
      unfolding endsWith_def by (metis append_take_drop_id length_Cons list.size(3) numeral_2_eq_2)
    then obtain w where w: "w @ [CHR '']'', CHR '']''] = x @ (''[['' @ b)" by (metis append.assoc)
    have "2 \<le> length (''[['' @ b)" by simp
    from suffix2[OF w this] obtain z where z: "''[['' @ b = z @ '']]''" by auto
    then have "2 \<le> length b"
      by (cases b rule: list.exhaust[case_product list.exhaust]) (auto simp: Cons_eq_append_conv)
    from z have "z @ [CHR '']'', CHR '']''] = ''[['' @ b" by simp
    from suffix2[OF this \<open>2 \<le> length b\<close>] obtain z' where "b = z' @ '']]''" by auto
    with contains_append[of z' "'']]''" "[]"] nc show False by simp
  qed
  then show ?thesis by (simp add: plainPart_def)
qed

section \<open>The claims about the glossary regions\<close>

text \<open>
  Claim C2, as the code has it. For every text made of \<open>N\<close> glossary regions
  (\<open>regions\<close>) none of whose terms contains a line terminator, the scan produces exactly
  \<open>N\<close> glossary references, in the order of the regions and labelled with the bracket
  contents, and the literal texts of all spans, concatenated, are the text without the
  delimiters.
\<close>

theorem renderRichText_regions_spans:
  assumes "regions segs final" "list_all (\<lambda>(p, t). singleLine t) segs"
  shows "length (filter isGlossaryRef (renderRichText g (assemble segs final))) = length segs
       \<and> map spanText (filter isGlossaryRef (renderRichText g (assemble segs final))) = map snd segs
       \<and> concat (map spanText (renderRichText g (assemble segs final))) = stripped segs final"
proof -
  note r = renderRichText_regions[OF assms, of g]
  have f: "filter isGlossaryRef (renderRichText g (assemble segs final))
      = map (\<lambda>(p, t). GlossaryRef t (lookupGlossary g t)) segs"
    unfolding r using regions_spans[of g segs final] by blast
  have c: "concat (map spanText (renderRichText g (assemble segs final))) = stripped segs final"
    unfolding r using regions_spans[of g segs final] by blast
  show ?thesis unfolding f length_map map_spanText_refs using c by simp
qed

theorem renderRichText_regions_spans_witness:
  "regions [(''a '', ''Cognate'')] '' in 1066.''
   \<and> list_all (\<lambda>(p, t). singleLine t) [(''a '', ''Cognate'')]
   \<and> length (filter isGlossaryRef (renderRichText None ''a [[Cognate]] in 1066.'')) = 1
   \<and> map spanText (filter isGlossaryRef (renderRichText None ''a [[Cognate]] in 1066.'')) = [''Cognate'']
   \<and> concat (map spanText (renderRichText None ''a [[Cognate]] in 1066.'')) = ''a Cognate in 1066.''"
proof -
  have h1: "regions [(''a '', ''Cognate'')] '' in 1066.''"
    by code_simp
  have h2: "list_all (\<lambda>(p, t). singleLine t) [(''a '', ''Cognate'')]"
    by code_simp
  from renderRichText_regions_spans[OF h1 h2, of None] h1 h2 show ?thesis
    by simp
qed

text \<open>
  The claim as stated fails when a region contains a line terminator, which the dot
  of the pattern does not match: in \<open>x[[a<CR>b]]\<close> the region is not recognised and the
  whole text is one plain span. (A line feed cannot occur, the caller splits the
  section body at line feeds; a carriage return can.)
\<close>

theorem region_with_line_terminator_not_recognised:
  "regions [(''x'', [CHR ''a'', CHR 0x0D, CHR ''b''])] []
   \<and> length (filter isGlossaryRef
        (renderRichText None (assemble [(''x'', [CHR ''a'', CHR 0x0D, CHR ''b''])] [])))
      \<noteq> length [(''x'', [CHR ''a'', CHR 0x0D, CHR ''b''])]
   \<and> renderRichText None (assemble [(''x'', [CHR ''a'', CHR 0x0D, CHR ''b''])] [])
      = [PlainText (assemble [(''x'', [CHR ''a'', CHR 0x0D, CHR ''b''])] [])]"
  by code_simp

text \<open>
  Claim C6. The glossary reference of a region \<open>[[t]]\<close> is labelled with the literal
  bracket contents \<open>t\<close>, and it resolves to the first glossary entry whose term equals
  \<open>t\<close> after lower-casing both; when the glossary is absent or has no such entry, it
  resolves to the placeholder with the definition \<open>Definition unavailable.\<close>. The scan
  is a total function: no case raises. Every glossary reference the scan of any text
  produces arises in this way from a piece \<open>[[t]]\<close> of the text.
\<close>

theorem glossaryRef_resolution:
  "renderPart glossary (''[['' @ t @ '']]'') = [GlossaryRef t (lookupGlossary glossary t)]
   \<and> (\<forall>sp \<in> set (renderRichText glossary text). isGlossaryRef sp \<longrightarrow>
        (\<exists>u. ''[['' @ u @ '']]'' \<in> set (split glossaryRegex text)
             \<and> sp = GlossaryRef u (lookupGlossary glossary u)))
   \<and> (glossary = None \<longrightarrow> lookupGlossary glossary t = placeholderItem t)
   \<and> (glossary = Some (xs @ e # ys) \<and> toLowerCase (entry_term e) = toLowerCase t
        \<and> (\<forall>x \<in> set xs. toLowerCase (entry_term x) \<noteq> toLowerCase t)
      \<longrightarrow> lookupGlossary glossary t = e)
   \<and> (glossary = Some es \<and> (\<forall>x \<in> set es. toLowerCase (entry_term x) \<noteq> toLowerCase t)
      \<longrightarrow> lookupGlossary glossary t = placeholderItem t)"
proof (intro conjI ballI impI)
  show "renderPart glossary (''[['' @ t @ '']]'') = [GlossaryRef t (lookupGlossary glossary t)]"
    by (rule renderPart_term)
next
  fix sp
  assume sp: "sp \<in> set (renderRichText glossary text)" and g: "isGlossaryRef sp"
  from sp obtain part where part: "part \<in> set (split glossaryRegex text)"
    and in_part: "sp \<in> set (renderPart glossary part)"
    by (auto simp: renderRichText_def)
  have b: "startsWith part ''[['' \<and> endsWith part '']]''"
  proof (rule ccontr)
    assume "\<not> ?thesis"
    then have "renderPart glossary part = markSubParts 0 (split dateRegex part)"
      by (auto simp: renderPart_def)
    with in_part g glossary_markSubParts[of 0 "split dateRegex part"] show False
      by (metis filter_empty_conv)
  qed
  then have eq: "part = ''[['' @ slice part 2 (- 2) @ '']]''"
    using bracket_part by blast
  from b in_part have "sp = GlossaryRef (slice part 2 (- 2)) (lookupGlossary glossary (slice part 2 (- 2)))"
    by (simp add: renderPart_def Let_def)
  with part eq show "\<exists>u. ''[['' @ u @ '']]'' \<in> set (split glossaryRegex text)
             \<and> sp = GlossaryRef u (lookupGlossary glossary u)"
    by metis
next
  assume "glossary = None"
  then show "lookupGlossary glossary t = placeholderItem t"
    by (simp add: lookupGlossary_def placeholderItem_def)
next
  assume h: "glossary = Some (xs @ e # ys) \<and> toLowerCase (entry_term e) = toLowerCase t
        \<and> (\<forall>x \<in> set xs. toLowerCase (entry_term x) \<noteq> toLowerCase t)"
  then have "find (\<lambda>g. toLowerCase (entry_term g) = toLowerCase t) (xs @ e # ys) = Some e"
    using find_first[of "\<lambda>g. toLowerCase (entry_term g) = toLowerCase t" e xs ys] by simp
  with h show "lookupGlossary glossary t = e"
    by (simp add: lookupGlossary_def)
next
  assume h: "glossary = Some es \<and> (\<forall>x \<in> set es. toLowerCase (entry_term x) \<noteq> toLowerCase t)"
  then have "find (\<lambda>g. toLowerCase (entry_term g) = toLowerCase t) es = None"
    by (simp add: find_None_iff)
  with h show "lookupGlossary glossary t = placeholderItem t"
    by (simp add: lookupGlossary_def placeholderItem_def)
qed

theorem glossaryRef_resolution_witness:
  "toLowerCase (entry_term \<lparr>entry_term = ''cognate'', entry_definition = ''related word''\<rparr>)
     = toLowerCase ''Cognate''
   \<and> toLowerCase ''umlaut'' \<noteq> toLowerCase ''Cognate''
   \<and> lookupGlossary
        (Some [\<lparr>entry_term = ''umlaut'', entry_definition = ''vowel change''\<rparr>,
               \<lparr>entry_term = ''cognate'', entry_definition = ''related word''\<rparr>,
               \<lparr>entry_term = ''COGNATE'', entry_definition = ''second entry''\<rparr>]) ''Cognate''
      = \<lparr>entry_term = ''cognate'', entry_definition = ''related word''\<rparr>
   \<and> lookupGlossary (Some [\<lparr>entry_term = ''umlaut'', entry_definition = ''vowel change''\<rparr>]) ''Cognate''
      = \<lparr>entry_term = ''Cognate'', entry_definition = ''Definition unavailable.''\<rparr>
   \<and> lookupGlossary None ''Cognate''
      = \<lparr>entry_term = ''Cognate'', entry_definition = ''Definition unavailable.''\<rparr>
   \<and> GlossaryRef ''Cognate'' \<lparr>entry_term = ''Cognate'', entry_definition = ''Definition unavailable.''\<rparr>
        \<in> set (renderRichText None ''a [[Cognate]] in 1066.'')
   \<and> ''[[Cognate]]'' \<in> set (split glossaryRegex ''a [[Cognate]] in 1066.'')"
proof -
  let ?u = "\<lparr>entry_term = ''umlaut'', entry_definition = ''vowel change''\<rparr>"
  let ?c = "\<lparr>entry_term = ''cognate'', entry_definition = ''related word''\<rparr>"
  let ?d = "\<lparr>entry_term = ''COGNATE'', entry_definition = ''second entry''\<rparr>"
  have a: "toLowerCase (entry_term ?c) = toLowerCase ''Cognate''"
    by code_simp
  have b: "toLowerCase ''umlaut'' \<noteq> toLowerCase ''Cognate''"
    by code_simp
  have found: "lookupGlossary (Some [?u, ?c, ?d]) ''Cognate'' = ?c"
    using glossaryRef_resolution[of "Some [?u, ?c, ?d]" "''Cognate''" "[]" "[?u]" ?c "[?d]" "[]"] a b
    by simp
  have missing: "lookupGlossary (Some [?u]) ''Cognate'' = placeholderItem ''Cognate''"
    using glossaryRef_resolution[of "Some [?u]" "''Cognate''" "[]" "[]" ?c "[]" "[?u]"] b
    by simp
  have absent: "lookupGlossary None ''Cognate'' = placeholderItem ''Cognate''"
    using glossaryRef_resolution[of None "''Cognate''" "[]" "[]" ?c "[]" "[]"]
    by simp
  have r: "GlossaryRef ''Cognate'' (placeholderItem ''Cognate'')
        \<in> set (renderRichText None ''a [[Cognate]] in 1066.'')"
    by code_simp
  have s: "''[[Cognate]]'' \<in> set (split glossaryRegex ''a [[Cognate]] in 1066.'')"
    by code_simp
  from a b found missing absent r s show ?thesis
    by (simp add: placeholderItem_def)
qed

section \<open>The claims about date markers\<close>



section \<open>The claim about an unterminated delimiter\<close>

text \<open>
  Claim C10. When the text has a \<open>[[\<close> with no \<open>]]\<close> after it (the text is
  \<open>a @ [[ @ b\<close> and \<open>b\<close> contains no \<open>]]\<close>), the last piece of the glossary split reaches
  from some point of \<open>a\<close> to the end of the text, delimiter included. The piece is not
  taken for a glossary region: it is rendered by the date pass alone, so no glossary
  reference comes from it, its spans spell the piece, and the delimiter stands
  literally, at its place, inside one plain span. The scan is a total function:
  there is no case in which it raises.
\<close>

theorem unterminated_delimiter_stays_plain:
  assumes "\<not> contains b '']]''"
  shows "\<exists>ps x L u v R.
      split glossaryRegex (a @ ''[['' @ b) = ps @ [x @ ''[['' @ b] \<and> concat ps @ x = a
    \<and> renderRichText glossary (a @ ''[['' @ b)
        = concat (map (renderPart glossary) ps) @ L @ PlainText (u @ ''[['' @ v) # R
    \<and> L @ PlainText (u @ ''[['' @ v) # R = markSubParts 0 (split dateRegex (x @ ''[['' @ b))
    \<and> concat (map spanText L) @ u = x
    \<and> concat (map spanText (L @ PlainText (u @ ''[['' @ v) # R)) = x @ ''[['' @ b
    \<and> filter isGlossaryRef (L @ PlainText (u @ ''[['' @ v) # R) = []"
proof -
  from unterminated_split[OF assms, of a] obtain ps x where s: "concat ps @ x = a"
    "split glossaryRegex (a @ ''[['' @ b) = ps @ [x @ ''[['' @ b]" by blast
  have p: "renderPart glossary (x @ ''[['' @ b) = markSubParts 0 (split dateRegex (x @ ''[['' @ b))"
    using unterminated_plainPart[OF assms, of x] by (auto simp: renderPart_def plainPart_def)
  from date_split_keeps_delimiter[of x b] obtain qs u v rs where d: "even (length qs)"
    "concat qs @ u = x" "split dateRegex (x @ ''[['' @ b) = qs @ (u @ ''[['' @ v) # rs" by blast
  define L where "L = markSubParts 0 qs"
  define R where "R = markSubParts (Suc (length qs)) rs"
  have m: "markSubParts 0 (split dateRegex (x @ ''[['' @ b)) = L @ PlainText (u @ ''[['' @ v) # R"
    unfolding d(3) L_def R_def using d(1) by (rule markSubParts_even)
  have 1: "renderRichText glossary (a @ ''[['' @ b)
        = concat (map (renderPart glossary) ps) @ L @ PlainText (u @ ''[['' @ v) # R"
    unfolding renderRichText_def s(2) using p m by simp
  have 2: "concat (map spanText L) @ u = x"
    using d(2) by (simp add: L_def spanText_markSubParts)
  have 3: "concat (map spanText (L @ PlainText (u @ ''[['' @ v) # R)) = x @ ''[['' @ b"
    unfolding m[symmetric] by (simp add: spanText_markSubParts concat_split)
  have 4: "filter isGlossaryRef (L @ PlainText (u @ ''[['' @ v) # R) = []"
    unfolding m[symmetric] by (rule glossary_markSubParts)
  from s 1 m[symmetric] 2 3 4 show ?thesis by blast
qed

theorem unterminated_delimiter_stays_plain_witness:
  "\<not> contains ''x 1066'' '']]''
   \<and> (\<exists>ps x L u v R.
      split glossaryRegex (''see '' @ ''[['' @ ''x 1066'') = ps @ [x @ ''[['' @ ''x 1066'']
    \<and> concat ps @ x = ''see ''
    \<and> renderRichText None (''see '' @ ''[['' @ ''x 1066'')
        = concat (map (renderPart None) ps) @ L @ PlainText (u @ ''[['' @ v) # R
    \<and> L @ PlainText (u @ ''[['' @ v) # R = markSubParts 0 (split dateRegex (x @ ''[['' @ ''x 1066''))
    \<and> concat (map spanText L) @ u = x
    \<and> concat (map spanText (L @ PlainText (u @ ''[['' @ v) # R)) = x @ ''[['' @ ''x 1066''
    \<and> filter isGlossaryRef (L @ PlainText (u @ ''[['' @ v) # R) = [])
   \<and> renderRichText None ''see [[x 1066'' = [PlainText ''see [[x '', DateMarker ''1066'', PlainText []]"
proof -
  have h: "\<not> contains ''x 1066'' '']]''"
    by code_simp
  have r: "renderRichText None ''see [[x 1066'' = [PlainText ''see [[x '', DateMarker ''1066'', PlainText []]"
    by code_simp
  from unterminated_delimiter_stays_plain[OF h, of "''see ''" None] h r show ?thesis
    by blast
qed

section \<open>Properties of the cache and of the fetch operations\<close>

lemma getItem_setItem:
  "setItem st key val = Some st' \<Longrightarrow> getItem st' key = Some val"
  by (auto simp: setItem_def getItem_def Let_def update_conv' split: if_splits)

lemma saveToCache_accepted:
  "setItem st key (stringify J v) \<noteq> None \<Longrightarrow> getItem (saveToCache J st key v) key = Some (stringify J v)"
  by (auto simp: saveToCache_def getItem_setItem)

lemma saveToCache_rejected:
  "setItem st key (stringify J v) = None \<Longrightarrow> saveToCache J st key v = st"
  by (simp add: saveToCache_def)

lemma liveHistoryArticle_failure:
  "liveHistoryArticle J e g st era = (Inl err, st') \<Longrightarrow> st' = st"
  by (auto simp: liveHistoryArticle_def Let_def split: sum.splits option.splits if_splits)

lemma liveSearchArticle_failure:
  "liveSearchArticle J e g st query = (Inl err, st') \<Longrightarrow> st' = st"
  by (auto simp: liveSearchArticle_def Let_def split: sum.splits option.splits if_splits)

lemma liveHistoricalIllustration_failure:
  "liveHistoricalIllustration J e g st prompt = (Inl err, st') \<Longrightarrow> st' = st"
  by (auto simp: liveHistoricalIllustration_def Let_def split: sum.splits option.splits if_splits)

lemma generateHistoryArticle_cases:
  "generateHistoryArticle J e g st era =
     (case liveHistoryArticle J e g st era of
        (Inr res, st') \<Rightarrow> (Inr res, st')
      | (Inl err, st') \<Rightarrow> fallback J st (eraCacheKey (era_id era)) err)"
  using liveHistoryArticle_failure[of J e g st era]
  by (auto simp: generateHistoryArticle_def fallback_def eraCacheKey_def Let_def split: prod.splits sum.splits)

lemma generateSearchArticle_cases:
  "generateSearchArticle J e g st query =
     (case liveSearchArticle J e g st query of
        (Inr res, st') \<Rightarrow> (Inr res, st')
      | (Inl err, st') \<Rightarrow> fallback J st (searchCacheKey query) err)"
  using liveSearchArticle_failure[of J e g st query]
  by (auto simp: generateSearchArticle_def fallback_def searchCacheKey_def Let_def split: prod.splits sum.splits)

lemma generateHistoricalIllustration_cases:
  "generateHistoricalIllustration J e g st prompt =
     (case liveHistoricalIllustration J e g st prompt of
        (Inr res, st') \<Rightarrow> (Inr res, st')
      | (Inl err, st') \<Rightarrow> fallback J st (imageCacheKey prompt) err)"
  using liveHistoricalIllustration_failure[of J e g st prompt]
  by (auto simp: generateHistoricalIllustration_def fallback_def imageCacheKey_def Let_def split: prod.splits sum.splits)

section \<open>The claims about the cache and the fetch operations\<close>

text \<open>
  Claim C1, as the code has it. For each of the three fetch operations: when the live
  attempt (the \<open>try\<close> block) fails with an error, the store is unchanged and the
  operation returns the value that \<open>getFromCache\<close> yields for the derived key if that
  value is truthy, absorbing the error, and raises the error of the live attempt
  otherwise; and the operation raises an error only when the live attempt failed with
  that error and the lookup yields no truthy value.
\<close>

theorem cache_fallback:
  "(fst (liveHistoryArticle J e g st era) = Inl err \<longrightarrow>
      generateHistoryArticle J e g st era
        = (if truthy (getFromCache J st (eraCacheKey (era_id era)))
           then (Inr (getFromCache J st (eraCacheKey (era_id era))), st) else (Inl err, st)))
   \<and> (fst (generateHistoryArticle J e g st era) = Inl err \<longrightarrow>
      fst (liveHistoryArticle J e g st era) = Inl err
      \<and> \<not> truthy (getFromCache J st (eraCacheKey (era_id era))))
   \<and> (fst (liveSearchArticle J e h st query) = Inl err \<longrightarrow>
      generateSearchArticle J e h st query
        = (if truthy (getFromCache J st (searchCacheKey query))
           then (Inr (getFromCache J st (searchCacheKey query)), st) else (Inl err, st)))
   \<and> (fst (generateSearchArticle J e h st query) = Inl err \<longrightarrow>
      fst (liveSearchArticle J e h st query) = Inl err
      \<and> \<not> truthy (getFromCache J st (searchCacheKey query)))
   \<and> (fst (liveHistoricalIllustration J e i st prompt) = Inl err \<longrightarrow>
      generateHistoricalIllustration J e i st prompt
        = (if truthy (getFromCache J st (imageCacheKey prompt))
           then (Inr (getFromCache J st (imageCacheKey prompt)), st) else (Inl err, st)))
   \<and> (fst (generateHistoricalIllustration J e i st prompt) = Inl err \<longrightarrow>
      fst (liveHistoricalIllustration J e i st prompt) = Inl err
      \<and> \<not> truthy (getFromCache J st (imageCacheKey prompt)))"
  unfolding generateHistoryArticle_cases generateSearchArticle_cases generateHistoricalIllustration_cases
  by (auto simp: fallback_def split: prod.splits sum.splits if_splits)

theorem cache_fallback_witness:
  "fst (liveHistoryArticle exampleJSON \<lparr>API_KEY = None\<rparr> noContent
          \<lparr>items = [(''chronos_cache_v1_era_intro'', ''{}'')], quota = 100\<rparr> introEra) = Inl ApiKeyMissing
   \<and> generateHistoryArticle exampleJSON \<lparr>API_KEY = None\<rparr> noContent
          \<lparr>items = [(''chronos_cache_v1_era_intro'', ''{}'')], quota = 100\<rparr> introEra
       = (Inr (JObj []), \<lparr>items = [(''chronos_cache_v1_era_intro'', ''{}'')], quota = 100\<rparr>)
   \<and> fst (generateSearchArticle exampleJSON \<lparr>API_KEY = Some ''k''\<rparr> noContent emptyStorage ''vowel'')
       = Inl NoContentGenerated
   \<and> fst (liveSearchArticle exampleJSON \<lparr>API_KEY = Some ''k''\<rparr> noContent emptyStorage ''vowel'')
       = Inl NoContentGenerated
   \<and> \<not> truthy (getFromCache exampleJSON emptyStorage (searchCacheKey ''vowel''))"
proof -
  let ?st = "\<lparr>items = [(''chronos_cache_v1_era_intro'', ''{}'')], quota = 100\<rparr>"
  have live: "fst (liveHistoryArticle exampleJSON \<lparr>API_KEY = None\<rparr> noContent ?st introEra) = Inl ApiKeyMissing"
    by (simp add: liveHistoryArticle_def getClient_def)
  have hit: "getFromCache exampleJSON ?st (eraCacheKey (era_id introEra)) = JObj []"
    by (simp add: getFromCache_def getItem_def eraCacheKey_def introEra_def getCacheKey_def
        CACHE_PREFIX_def sanitize_def isKeyChar_def isLower_def isUpper_def isDigit_def
        exampleJSON_def)
  have raised: "fst (generateSearchArticle exampleJSON \<lparr>API_KEY = Some ''k''\<rparr> noContent emptyStorage ''vowel'')
       = Inl NoContentGenerated"
    by (simp add: generateSearchArticle_def liveSearchArticle_def getClient_def noContent_def
        getFromCache_def getItem_def emptyStorage_def Let_def)
  note inst = cache_fallback[where J = exampleJSON and e = "\<lparr>API_KEY = None\<rparr>" and g = noContent
      and st = ?st and era = introEra and err = ApiKeyMissing]
  from inst live hit have 1: "generateHistoryArticle exampleJSON \<lparr>API_KEY = None\<rparr> noContent ?st introEra
       = (Inr (JObj []), ?st)"
    by simp
  from cache_fallback[where J = exampleJSON and e = "\<lparr>API_KEY = Some ''k''\<rparr>" and h = noContent
      and st = emptyStorage and query = "''vowel''" and err = NoContentGenerated] raised
  have 2: "fst (liveSearchArticle exampleJSON \<lparr>API_KEY = Some ''k''\<rparr> noContent emptyStorage ''vowel'')
       = Inl NoContentGenerated
    \<and> \<not> truthy (getFromCache exampleJSON emptyStorage (searchCacheKey ''vowel''))"
    by blast
  from live 1 raised 2 show ?thesis by blast
qed

text \<open>
  The claim as stated fails for a cache entry whose value is falsy. The operation
  itself can write one: a live answer with the JSON text \<open>false\<close> is parsed, cached and
  returned; a later call whose live attempt fails (no API key) finds the entry under
  the derived key, \<open>getFromCache\<close> returns its value, and the operation raises all the
  same, because \<open>if (cached)\<close> tests the truth value of the cached value.
\<close>

theorem falsy_cache_entry_not_returned:
  "generateHistoryArticle exampleJSON \<lparr>API_KEY = Some ''k''\<rparr> (answering ''false'') emptyStorage introEra
     = (Inr (JBool False), \<lparr>items = [(''chronos_cache_v1_era_intro'', ''false'')], quota = 5242880\<rparr>)
   \<and> getItem \<lparr>items = [(''chronos_cache_v1_era_intro'', ''false'')], quota = 5242880\<rparr>
        (eraCacheKey (era_id introEra)) = Some ''false''
   \<and> getFromCache exampleJSON \<lparr>items = [(''chronos_cache_v1_era_intro'', ''false'')], quota = 5242880\<rparr>
        (eraCacheKey (era_id introEra)) = JBool False
   \<and> generateHistoryArticle exampleJSON \<lparr>API_KEY = None\<rparr> (answering ''false'')
        \<lparr>items = [(''chronos_cache_v1_era_intro'', ''false'')], quota = 5242880\<rparr> introEra
     = (Inl ApiKeyMissing, \<lparr>items = [(''chronos_cache_v1_era_intro'', ''false'')], quota = 5242880\<rparr>)"
  by (simp add: generateHistoryArticle_def liveHistoryArticle_def getClient_def exampleJSON_def
      answering_def saveToCache_def setItem_def usage_def emptyStorage_def introEra_def
      getCacheKey_def eraCacheKey_def CACHE_PREFIX_def sanitize_def isKeyChar_def isLower_def
      isUpper_def isDigit_def getFromCache_def getItem_def Let_def)

text \<open>
  Claim C3, as the code has it. The fetch operations do not validate the shape of the
  answer: a non-empty answer text that parses is returned as parsed, whatever its
  shape, and written to the cache under the derived key. The generation failures that
  feed the cache fallback are the missing credential, the rejection of the service,
  a missing or empty answer text, and a text that does not parse.
\<close>

theorem parsed_answer_returned_unvalidated:
  "(getClient e = Inr () \<and> g era = Inr r \<and> response_text r = Some t \<and> t \<noteq> [] \<and> parse J t = Some v
      \<longrightarrow> generateHistoryArticle J e g st era
            = (Inr v, saveToCache J st (eraCacheKey (era_id era)) v))
   \<and> (getClient e = Inr () \<and> h query = Inr r \<and> response_text r = Some t \<and> t \<noteq> [] \<and> parse J t = Some v
      \<longrightarrow> generateSearchArticle J e h st query
            = (Inr v, saveToCache J st (searchCacheKey query) v))
   \<and> (fst (liveHistoryArticle J e g st era) = Inl err \<longleftrightarrow>
        getClient e = Inl err
        \<or> (getClient e = Inr () \<and> g era = Inl err)
        \<or> (getClient e = Inr () \<and> err = NoContentGenerated
            \<and> (\<exists>r. g era = Inr r \<and> (response_text r = None \<or> response_text r = Some [])))
        \<or> (getClient e = Inr () \<and> err = SyntaxError
            \<and> (\<exists>r t. g era = Inr r \<and> response_text r = Some t \<and> t \<noteq> [] \<and> parse J t = None)))
   \<and> (fst (liveSearchArticle J e h st query) = Inl err \<longleftrightarrow>
        getClient e = Inl err
        \<or> (getClient e = Inr () \<and> h query = Inl err)
        \<or> (getClient e = Inr () \<and> err = NoContentGenerated
            \<and> (\<exists>r. h query = Inr r \<and> (response_text r = None \<or> response_text r = Some [])))
        \<or> (getClient e = Inr () \<and> err = SyntaxError
            \<and> (\<exists>r t. h query = Inr r \<and> response_text r = Some t \<and> t \<noteq> [] \<and> parse J t = None)))"
proof (intro conjI impI)
  assume "getClient e = Inr () \<and> g era = Inr r \<and> response_text r = Some t \<and> t \<noteq> [] \<and> parse J t = Some v"
  then show "generateHistoryArticle J e g st era = (Inr v, saveToCache J st (eraCacheKey (era_id era)) v)"
    by (simp add: generateHistoryArticle_def liveHistoryArticle_def eraCacheKey_def Let_def)
next
  assume "getClient e = Inr () \<and> h query = Inr r \<and> response_text r = Some t \<and> t \<noteq> [] \<and> parse J t = Some v"
  then show "generateSearchArticle J e h st query = (Inr v, saveToCache J st (searchCacheKey query) v)"
    by (simp add: generateSearchArticle_def liveSearchArticle_def searchCacheKey_def Let_def)
next
  show "fst (liveHistoryArticle J e g st era) = Inl err \<longleftrightarrow>
        getClient e = Inl err
        \<or> (getClient e = Inr () \<and> g era = Inl err)
        \<or> (getClient e = Inr () \<and> err = NoContentGenerated
            \<and> (\<exists>r. g era = Inr r \<and> (response_text r = None \<or> response_text r = Some [])))
        \<or> (getClient e = Inr () \<and> err = SyntaxError
            \<and> (\<exists>r t. g era = Inr r \<and> response_text r = Some t \<and> t \<noteq> [] \<and> parse J t = None))"
    by (auto simp: liveHistoryArticle_def Let_def split: sum.splits option.splits if_splits)
next
  show "fst (liveSearchArticle J e h st query) = Inl err \<longleftrightarrow>
        getClient e = Inl err
        \<or> (getClient e = Inr () \<and> h query = Inl err)
        \<or> (getClient e = Inr () \<and> err = NoContentGenerated
            \<and> (\<exists>r. h query = Inr r \<and> (response_text r = None \<or> response_text r = Some [])))
        \<or> (getClient e = Inr () \<and> err = SyntaxError
            \<and> (\<exists>r t. h query = Inr r \<and> response_text r = Some t \<and> t \<noteq> [] \<and> parse J t = None))"
    by (auto simp: liveSearchArticle_def Let_def split: sum.splits option.splits if_splits)
qed

theorem parsed_answer_returned_unvalidated_witness:
  "getClient \<lparr>API_KEY = Some ''k''\<rparr> = Inr ()
   \<and> answering ''{}'' introEra = Inr \<lparr>response_text = Some ''{}''\<rparr>
   \<and> parse exampleJSON ''{}'' = Some (JObj [])
   \<and> generateHistoryArticle exampleJSON \<lparr>API_KEY = Some ''k''\<rparr> (answering ''{}'') emptyStorage introEra
       = (Inr (JObj []), saveToCache exampleJSON emptyStorage (eraCacheKey (era_id introEra)) (JObj []))"
proof -
  have 1: "getClient \<lparr>API_KEY = Some ''k''\<rparr> = Inr ()" by (simp add: getClient_def)
  have 2: "answering ''{}'' introEra = Inr \<lparr>response_text = Some ''{}''\<rparr>" by (simp add: answering_def)
  have 3: "parse exampleJSON ''{}'' = Some (JObj [])" by (simp add: exampleJSON_def)
  from parsed_answer_returned_unvalidated[where e = "\<lparr>API_KEY = Some ''k''\<rparr>"
      and g = "answering ''{}''" and era = introEra and r = "\<lparr>response_text = Some ''{}''\<rparr>"
      and t = "''{}''" and J = exampleJSON and v = "JObj []" and st = emptyStorage] 1 2 3
  show ?thesis by simp
qed

text \<open>
  The claim as stated fails: the answer text \<open>{}\<close> parses, the parsed object has none
  of the required fields, and the operation returns it and caches it.
\<close>

theorem ill_shaped_answer_returned:
  "parse exampleJSON ''{}'' = Some (JObj [])
   \<and> \<not> isHistoryContent (JObj [])
   \<and> generateHistoryArticle exampleJSON \<lparr>API_KEY = Some ''k''\<rparr> (answering ''{}'') emptyStorage introEra
       = (Inr (JObj []), \<lparr>items = [(''chronos_cache_v1_era_intro'', ''{}'')], quota = 5242880\<rparr>)"
  by (simp add: generateHistoryArticle_def liveHistoryArticle_def getClient_def exampleJSON_def
      answering_def saveToCache_def setItem_def usage_def emptyStorage_def introEra_def
      getCacheKey_def CACHE_PREFIX_def sanitize_def isKeyChar_def isLower_def isUpper_def
      isDigit_def isHistoryContent_def hasString_def Let_def)

text \<open>
  Claim C7, as the code has it. Let \<open>v\<close> be a value whose JSON text is not empty and
  parses back to \<open>v\<close> (a JSON-serializable value). If the store accepts the item, a
  \<open>get\<close> right after the \<open>put\<close> under the same namespace and identifier returns \<open>v\<close>. If
  the store rejects the item, the \<open>put\<close> changes nothing and raises nothing.
\<close>

theorem cache_round_trip:
  "(parse J (stringify J v) = Some v \<and> stringify J v \<noteq> []
      \<and> setItem st (getCacheKey ns ident) (stringify J v) \<noteq> None
    \<longrightarrow> getFromCache J (saveToCache J st (getCacheKey ns ident) v) (getCacheKey ns ident) = v)
   \<and> (setItem st (getCacheKey ns ident) (stringify J v) = None
    \<longrightarrow> saveToCache J st (getCacheKey ns ident) v = st)"
  by (auto simp: getFromCache_def saveToCache_accepted saveToCache_rejected)

theorem cache_round_trip_witness:
  "parse exampleJSON (stringify exampleJSON (JStr ''u'')) = Some (JStr ''u'')
   \<and> stringify exampleJSON (JStr ''u'') \<noteq> []
   \<and> setItem emptyStorage (getCacheKey Image ''p_1'') (stringify exampleJSON (JStr ''u'')) \<noteq> None
   \<and> getFromCache exampleJSON (saveToCache exampleJSON emptyStorage (getCacheKey Image ''p_1'') (JStr ''u''))
        (getCacheKey Image ''p_1'') = JStr ''u''
   \<and> setItem fullStorage (getCacheKey Image ''p_1'') (stringify exampleJSON (JStr ''u'')) = None
   \<and> saveToCache exampleJSON fullStorage (getCacheKey Image ''p_1'') (JStr ''u'') = fullStorage"
proof -
  have 1: "parse exampleJSON (stringify exampleJSON (JStr ''u'')) = Some (JStr ''u'')"
    by (simp add: exampleJSON_def)
  have 2: "stringify exampleJSON (JStr ''u'') \<noteq> []"
    by (simp add: exampleJSON_def)
  have 3: "setItem emptyStorage (getCacheKey Image ''p_1'') (stringify exampleJSON (JStr ''u'')) \<noteq> None"
    by (simp add: setItem_def emptyStorage_def usage_def exampleJSON_def getCacheKey_def
        CACHE_PREFIX_def sanitize_def Let_def)
  have 4: "setItem fullStorage (getCacheKey Image ''p_1'') (stringify exampleJSON (JStr ''u'')) = None"
    by (simp add: setItem_def fullStorage_def usage_def exampleJSON_def getCacheKey_def
        CACHE_PREFIX_def sanitize_def Let_def)
  from cache_round_trip[where J = exampleJSON and v = "JStr ''u''" and st = emptyStorage
      and ns = Image and ident = "''p_1''"] 1 2 3
  have 5: "getFromCache exampleJSON (saveToCache exampleJSON emptyStorage (getCacheKey Image ''p_1'') (JStr ''u''))
        (getCacheKey Image ''p_1'') = JStr ''u''"
    by blast
  from cache_round_trip[where J = exampleJSON and v = "JStr ''u''" and st = fullStorage
      and ns = Image and ident = "''p_1''"] 4
  have 6: "saveToCache exampleJSON fullStorage (getCacheKey Image ''p_1'') (JStr ''u'') = fullStorage"
    by blast
  from 1 2 3 4 5 6 show ?thesis by blast
qed

text \<open>
  The claim as stated fails when the store is full: the \<open>put\<close> is swallowed, and the
  \<open>get\<close> that follows returns \<open>null\<close>, not the value.
\<close>

theorem round_trip_fails_when_store_is_full:
  "parse exampleJSON (stringify exampleJSON (JStr ''u'')) = Some (JStr ''u'')
   \<and> getFromCache exampleJSON (saveToCache exampleJSON fullStorage (getCacheKey Image ''p_1'') (JStr ''u''))
        (getCacheKey Image ''p_1'') = JNull
   \<and> JNull \<noteq> JStr ''u''"
  by (simp add: exampleJSON_def getFromCache_def saveToCache_def setItem_def fullStorage_def
      usage_def getItem_def getCacheKey_def CACHE_PREFIX_def sanitize_def Let_def)

end
